theory Spec2Isabelle
  imports Complex_Main "HOL-Library.Word"
begin

unbundle bit_operations_syntax

section \<open>Single-precision arithmetic\<close>

text \<open>
  The firmware computes in C \<^verbatim>\<open>float\<close>. The model takes the float type \<open>'f\<close> and its
  operations as a parameter: one field for each operator and each \<^verbatim>\<open>libm\<close> call that
  \<^verbatim>\<open>main_enhanced.cpp\<close> uses. Theorems stated for every \<open>ops\<close> hold whatever the
  rounding and the special values are. \<open>fconst\<close> reads a decimal literal of the source
  (\<^verbatim>\<open>0.35f\<close>), \<open>fof_nat\<close> is \<^verbatim>\<open>static_cast<float>\<close> of an unsigned integer, and
  \<open>flround\<close> is \<^verbatim>\<open>lroundf\<close>.
\<close>

record 'f float_ops =
  fadd :: "'f \<Rightarrow> 'f \<Rightarrow> 'f"
  fsub :: "'f \<Rightarrow> 'f \<Rightarrow> 'f"
  fmul :: "'f \<Rightarrow> 'f \<Rightarrow> 'f"
  fdiv :: "'f \<Rightarrow> 'f \<Rightarrow> 'f"
  flt :: "'f \<Rightarrow> 'f \<Rightarrow> bool"
  fle :: "'f \<Rightarrow> 'f \<Rightarrow> bool"
  fconst :: "real \<Rightarrow> 'f"
  fof_nat :: "nat \<Rightarrow> 'f"
  fsqrt :: "'f \<Rightarrow> 'f"
  fsin :: "'f \<Rightarrow> 'f"
  fcos :: "'f \<Rightarrow> 'f"
  fexp :: "'f \<Rightarrow> 'f"
  flog :: "'f \<Rightarrow> 'f"
  fatan2 :: "'f \<Rightarrow> 'f \<Rightarrow> 'f"
  ffabs :: "'f \<Rightarrow> 'f"
  flround :: "'f \<Rightarrow> int"

text \<open>\<^verbatim>\<open>a >= b\<close> on floats.\<close>

definition fge :: "'f float_ops \<Rightarrow> 'f \<Rightarrow> 'f \<Rightarrow> bool" where
  "fge ops a b = fle ops b a"

text \<open>
  \<^verbatim>\<open>std::max(a, b)\<close> is \<^verbatim>\<open>(a < b) ? b : a\<close> and \<^verbatim>\<open>std::min(a, b)\<close> is
  \<^verbatim>\<open>(b < a) ? b : a\<close>; \<^verbatim>\<open>clampValue\<close> is the template of the source, used at
  \<^verbatim>\<open>float\<close> and at \<^verbatim>\<open>int\<close>. The comparison is the first argument.
\<close>

definition std_max :: "('a \<Rightarrow> 'a \<Rightarrow> bool) \<Rightarrow> 'a \<Rightarrow> 'a \<Rightarrow> 'a" where
  "std_max lt a b = (if lt a b then b else a)"

definition std_min :: "('a \<Rightarrow> 'a \<Rightarrow> bool) \<Rightarrow> 'a \<Rightarrow> 'a \<Rightarrow> 'a" where
  "std_min lt a b = (if lt b a then b else a)"

definition clampValue :: "('a \<Rightarrow> 'a \<Rightarrow> bool) \<Rightarrow> 'a \<Rightarrow> 'a \<Rightarrow> 'a \<Rightarrow> 'a" where
  "clampValue lt v min_v max_v = std_max lt min_v (std_min lt max_v v)"

text \<open>
  The idealised instance: floats read as real numbers, every operation exact.
  \<^verbatim>\<open>atan2f\<close> and \<^verbatim>\<open>lroundf\<close> (halves away from zero) are written out.
\<close>

definition atan2_real :: "real \<Rightarrow> real \<Rightarrow> real" where
  "atan2_real y x =
     (if 0 < x then arctan (y / x)
      else if x < 0 then (if 0 \<le> y then arctan (y / x) + pi else arctan (y / x) - pi)
      else if 0 < y then pi / 2
      else if y < 0 then - pi / 2
      else 0)"

definition lround_real :: "real \<Rightarrow> int" where
  "lround_real x = (if 0 \<le> x then \<lfloor>x + 1 / 2\<rfloor> else - \<lfloor>- x + 1 / 2\<rfloor>)"

definition real_ops :: "real float_ops" where
  "real_ops = \<lparr> fadd = (+), fsub = (-), fmul = (*), fdiv = (/),
                flt = (<), fle = (\<le>), fconst = (\<lambda>x. x), fof_nat = real,
                fsqrt = sqrt, fsin = sin, fcos = cos, fexp = exp, flog = ln,
                fatan2 = atan2_real, ffabs = abs, flround = lround_real \<rparr>"

section \<open>Constants and the band table\<close>

definition CHANNEL_COUNT :: nat where "CHANNEL_COUNT = 8"
definition BAND_COUNT :: nat where "BAND_COUNT = 5"
definition SAMPLE_RATE_HZ :: nat where "SAMPLE_RATE_HZ = 250"
definition PI_F :: real where "PI_F = 3.14159265358979323846"
definition HEADER_SIZE :: nat where "HEADER_SIZE = 12"
definition EEG_PAYLOAD_BYTES :: nat where "EEG_PAYLOAD_BYTES = 344"
definition SIGPRINT_PAYLOAD_BYTES :: nat where "SIGPRINT_PAYLOAD_BYTES = 24"
definition PAYLOAD_BYTES :: nat where
  "PAYLOAD_BYTES = EEG_PAYLOAD_BYTES + SIGPRINT_PAYLOAD_BYTES + 1 + 2"
definition PACKET_BYTES :: nat where "PACKET_BYTES = HEADER_SIZE + PAYLOAD_BYTES"
definition CRC16_POLY :: "16 word" where "CRC16_POLY = 0x1021"
definition CRC16_INIT :: "16 word" where "CRC16_INIT = 0xFFFF"

record FrequencyBand =
  band_name :: string
  center_hz :: real
  bandwidth_hz :: real
  weight :: real

definition kBands :: "FrequencyBand list" where
  "kBands =
     [\<lparr>band_name = ''delta'', center_hz = 2.5, bandwidth_hz = 3.0, weight = 0.15\<rparr>,
      \<lparr>band_name = ''theta'', center_hz = 6.0, bandwidth_hz = 3.0, weight = 0.20\<rparr>,
      \<lparr>band_name = ''alpha'', center_hz = 10.0, bandwidth_hz = 3.0, weight = 0.30\<rparr>,
      \<lparr>band_name = ''beta'', center_hz = 20.0, bandwidth_hz = 10.0, weight = 0.20\<rparr>,
      \<lparr>band_name = ''gamma'', center_hz = 40.0, bandwidth_hz = 20.0, weight = 0.15\<rparr>]"

text \<open>
  A \<^verbatim>\<open>std::array<T, N>\<close> is modelled by its index function on \<open>{0..<N}\<close>;
  \<^verbatim>\<open>BandMatrix\<close> is indexed by channel, then band.
\<close>

type_synonym 'f BandMatrix = "nat \<Rightarrow> nat \<Rightarrow> 'f"

record 'f SigprintResult =
  digits :: "nat \<Rightarrow> 8 word"
  coherence :: 'f
  gate_flags :: "8 word"
  loop_flags :: "8 word"
  entropy :: 'f

section \<open>Multi-band lock-in\<close>

record 'f BandState =
  ref_sin :: "nat \<Rightarrow> 'f"
  ref_cos :: "nat \<Rightarrow> 'f"
  filter_alpha :: 'f
  state_i :: 'f
  state_q :: 'f
  state_amplitude :: 'f
  state_phase :: 'f

text \<open>\<^verbatim>\<open>size_t\<close> has 32 bits on the target, so the cursor \<^verbatim>\<open>index_\<close> is a 32-bit word.\<close>

record 'f MultiBandLockIn =
  bands :: "nat \<Rightarrow> 'f BandState"
  lockin_index :: "32 word"

definition WINDOW :: nat where "WINDOW = SAMPLE_RATE_HZ"

definition TWO_PI_F :: "'f float_ops \<Rightarrow> 'f" where
  "TWO_PI_F ops = fmul ops (fconst ops 2) (fconst ops PI_F)"

text \<open>
  \<^verbatim>\<open>reset\<close> assigns every field of every band and the cursor, so its result does not
  depend on the state before; \<open>reset_band\<close> is the body of its loop.
\<close>

definition reset_band :: "'f float_ops \<Rightarrow> nat \<Rightarrow> 'f BandState" where
  "reset_band ops band =
     (let freq = fconst ops (center_hz (kBands ! band));
          bandwidth = std_max (flt ops) (fconst ops 0.1) (fconst ops (bandwidth_hz (kBands ! band)));
          alpha = fexp ops (fdiv ops (fmul ops (fmul ops (fconst ops (- 2)) (fconst ops PI_F)) bandwidth)
                              (fof_nat ops SAMPLE_RATE_HZ));
          t = (\<lambda>i. fdiv ops (fof_nat ops i) (fof_nat ops SAMPLE_RATE_HZ))
      in \<lparr> ref_sin = (\<lambda>i. fsin ops (fmul ops (fmul ops (TWO_PI_F ops) freq) (t i))),
           ref_cos = (\<lambda>i. fcos ops (fmul ops (fmul ops (TWO_PI_F ops) freq) (t i))),
           filter_alpha = clampValue (flt ops) alpha (fconst ops 0) (fconst ops 0.9995),
           state_i = fconst ops 0,
           state_q = fconst ops 0,
           state_amplitude = fconst ops 0,
           state_phase = fconst ops 0 \<rparr>)"

definition reset :: "'f float_ops \<Rightarrow> 'f MultiBandLockIn" where
  "reset ops = \<lparr> bands = reset_band ops, lockin_index = 0 \<rparr>"

text \<open>The body of the loop of \<^verbatim>\<open>process\<close>, for one band.\<close>

definition process_band :: "'f float_ops \<Rightarrow> nat \<Rightarrow> 'f \<Rightarrow> 'f BandState \<Rightarrow> 'f BandState" where
  "process_band ops idx sample_uv state =
     (let i_raw = fmul ops sample_uv (ref_cos state idx);
          q_raw = fmul ops sample_uv (ref_sin state idx);
          beta = fsub ops (fconst ops 1) (filter_alpha state);
          i_new = fadd ops (fmul ops (filter_alpha state) (state_i state)) (fmul ops beta i_raw);
          q_new = fadd ops (fmul ops (filter_alpha state) (state_q state)) (fmul ops beta q_raw)
      in state \<lparr> state_i := i_new,
                 state_q := q_new,
                 state_amplitude :=
                   fmul ops (fconst ops 2) (fsqrt ops (fadd ops (fmul ops i_new i_new) (fmul ops q_new q_new))),
                 state_phase := fatan2 ops q_new i_new \<rparr>)"

definition process :: "'f float_ops \<Rightarrow> 'f MultiBandLockIn \<Rightarrow> 'f \<Rightarrow> 'f MultiBandLockIn" where
  "process ops s sample_uv =
     (let idx = unat (lockin_index s)
      in \<lparr> bands = fold (\<lambda>band bs. bs (band := process_band ops idx sample_uv (bs band)))
                       [0..<BAND_COUNT] (bands s),
           lockin_index = (lockin_index s + 1) mod word_of_nat WINDOW \<rparr>)"





text \<open>A lock-in after \<^verbatim>\<open>reset\<close> and the samples \<open>xs\<close>, oldest first.\<close>

definition lockin_run :: "'f float_ops \<Rightarrow> 'f list \<Rightarrow> 'f MultiBandLockIn" where
  "lockin_run ops xs = fold (\<lambda>x s. process ops s x) xs (reset ops)"

section \<open>Fingerprint composer\<close>

record 'f SigprintComposer =
  initialized :: bool
  previous_power :: "nat \<Rightarrow> 'f"
  history :: "nat \<Rightarrow> nat \<Rightarrow> 'f"
  history_index :: "nat \<Rightarrow> 32 word"
  history_fill_count :: "nat \<Rightarrow> 16 word"

definition HISTORY_WINDOW :: nat where "HISTORY_WINDOW = 64"

text \<open>The constructor, with the default member initialisers.\<close>

definition new_composer :: "'f float_ops \<Rightarrow> 'f SigprintComposer" where
  "new_composer ops =
     \<lparr> initialized = False,
       previous_power = (\<lambda>_. fconst ops 0),
       history = (\<lambda>_ _. fconst ops 0),
       history_index = (\<lambda>_. 0),
       history_fill_count = (\<lambda>_. 0) \<rparr>"

subsection \<open>Per-band aggregates and global coherence\<close>

definition avg_power :: "'f float_ops \<Rightarrow> 'f BandMatrix \<Rightarrow> nat \<Rightarrow> 'f" where
  "avg_power ops amplitude band =
     (let power_sum = fold (\<lambda>ch acc. fadd ops acc (amplitude ch band)) [0..<CHANNEL_COUNT] (fconst ops 0)
      in fdiv ops power_sum (fof_nat ops CHANNEL_COUNT))"

definition band_coherence :: "'f float_ops \<Rightarrow> 'f BandMatrix \<Rightarrow> nat \<Rightarrow> 'f" where
  "band_coherence ops phases band =
     (let sin_sum = fold (\<lambda>ch acc. fadd ops acc (fsin ops (phases ch band))) [0..<CHANNEL_COUNT] (fconst ops 0);
          cos_sum = fold (\<lambda>ch acc. fadd ops acc (fcos ops (phases ch band))) [0..<CHANNEL_COUNT] (fconst ops 0);
          magnitude = fsqrt ops (fadd ops (fmul ops sin_sum sin_sum) (fmul ops cos_sum cos_sum))
      in clampValue (flt ops) (fdiv ops magnitude (fof_nat ops CHANNEL_COUNT)) (fconst ops 0) (fconst ops 1))"

definition global_coherence :: "'f float_ops \<Rightarrow> 'f BandMatrix \<Rightarrow> 'f" where
  "global_coherence ops phases =
     (let coherence_sum =
            fold (\<lambda>band acc. fadd ops acc (fmul ops (band_coherence ops phases band) (fconst ops (weight (kBands ! band)))))
              [0..<BAND_COUNT] (fconst ops 0)
      in clampValue (flt ops) coherence_sum (fconst ops 0) (fconst ops 1))"

subsection \<open>Alpha-band asymmetry and regional shares\<close>

definition LEFT_INDICES :: "nat list" where "LEFT_INDICES = [0, 2, 4, 6]"
definition RIGHT_INDICES :: "nat list" where "RIGHT_INDICES = [1, 3, 5, 7]"
definition FRONTAL :: "nat list" where "FRONTAL = [0, 1, 2, 3]"
definition OCCIPITAL :: "nat list" where "OCCIPITAL = [6, 7]"

definition mean_angle :: "'f float_ops \<Rightarrow> 'f BandMatrix \<Rightarrow> nat list \<Rightarrow> 'f" where
  "mean_angle ops phases indices =
     (let sin_sum = fold (\<lambda>idx acc. fadd ops acc (fsin ops (phases idx 2))) indices (fconst ops 0);
          cos_sum = fold (\<lambda>idx acc. fadd ops acc (fcos ops (phases idx 2))) indices (fconst ops 0)
      in fatan2 ops (fdiv ops sin_sum (fof_nat ops (length indices)))
                    (fdiv ops cos_sum (fof_nat ops (length indices))))"

text \<open>
  The two \<^verbatim>\<open>while\<close> loops that bring \<^verbatim>\<open>phase_diff_deg\<close> into \<open>[0, 360)\<close>. Nothing
  bounds their iterations for an arbitrary float type, so not returning is the value
  \<open>None\<close>.
\<close>

partial_function (option) wrap_up :: "'f float_ops \<Rightarrow> 'f \<Rightarrow> 'f option" where
  "wrap_up ops d =
     (if flt ops d (fconst ops 0) then wrap_up ops (fadd ops d (fconst ops 360)) else Some d)"

partial_function (option) wrap_down :: "'f float_ops \<Rightarrow> 'f \<Rightarrow> 'f option" where
  "wrap_down ops d =
     (if fge ops d (fconst ops 360) then wrap_down ops (fsub ops d (fconst ops 360)) else Some d)"

definition phase_metric :: "'f float_ops \<Rightarrow> 'f BandMatrix \<Rightarrow> int option" where
  "phase_metric ops phases =
     (let left_phase = mean_angle ops phases LEFT_INDICES;
          right_phase = mean_angle ops phases RIGHT_INDICES;
          phase_diff_deg = fdiv ops (fmul ops (fsub ops left_phase right_phase) (fconst ops 180)) (fconst ops PI_F)
      in case wrap_up ops phase_diff_deg of
           None \<Rightarrow> None
         | Some d1 \<Rightarrow>
             (case wrap_down ops d1 of
                None \<Rightarrow> None
              | Some d2 \<Rightarrow> Some (clampValue (<) (flround ops (fdiv ops d2 (fconst ops 3.6))) 0 99)))"

definition lr_ratio :: "'f float_ops \<Rightarrow> 'f BandMatrix \<Rightarrow> int" where
  "lr_ratio ops amplitude =
     (let left_power_alpha = fold (\<lambda>idx acc. fadd ops acc (amplitude idx 2)) LEFT_INDICES (fconst ops 0);
          right_power_alpha = fold (\<lambda>idx acc. fadd ops acc (amplitude idx 2)) RIGHT_INDICES (fconst ops 0);
          lr_total = fadd ops (fadd ops left_power_alpha right_power_alpha) (fconst ops (1 / 10 ^ 6))
      in clampValue (<) (flround ops (fmul ops (fdiv ops left_power_alpha lr_total) (fconst ops 99))) 0 99)"

definition region_sum :: "'f float_ops \<Rightarrow> 'f BandMatrix \<Rightarrow> nat list \<Rightarrow> 'f" where
  "region_sum ops amplitude region =
     fold (\<lambda>idx acc. fadd ops acc (fold (\<lambda>band a. fadd ops a (amplitude idx band)) [0..<BAND_COUNT] (fconst ops 0)))
       region (fconst ops 0)"

definition regional_total :: "'f float_ops \<Rightarrow> 'f BandMatrix \<Rightarrow> 'f" where
  "regional_total ops amplitude =
     fadd ops (fadd ops (region_sum ops amplitude FRONTAL) (region_sum ops amplitude OCCIPITAL))
       (fconst ops (1 / 10 ^ 6))"

definition frontal_pct :: "'f float_ops \<Rightarrow> 'f BandMatrix \<Rightarrow> int" where
  "frontal_pct ops amplitude =
     clampValue (<)
       (flround ops (fmul ops (fdiv ops (region_sum ops amplitude FRONTAL) (regional_total ops amplitude)) (fconst ops 99)))
       0 99"

definition occipital_pct :: "'f float_ops \<Rightarrow> 'f BandMatrix \<Rightarrow> int" where
  "occipital_pct ops amplitude =
     clampValue (<)
       (flround ops (fmul ops (fdiv ops (region_sum ops amplitude OCCIPITAL) (regional_total ops amplitude)) (fconst ops 99)))
       0 99"

definition coherence_value :: "'f float_ops \<Rightarrow> 'f \<Rightarrow> int" where
  "coherence_value ops coh = clampValue (<) (flround ops (fmul ops coh (fconst ops 9999))) 0 9999"

definition band_digit :: "'f float_ops \<Rightarrow> 'f BandMatrix \<Rightarrow> nat \<Rightarrow> 8 word" where
  "band_digit ops amplitude band =
     (let weighted = fmul ops (avg_power ops amplitude band) (fconst ops (weight (kBands ! band)));
          normalized = fdiv ops weighted (fadd ops weighted (fconst ops 25))
      in word_of_int (clampValue (<) (flround ops (fmul ops normalized (fconst ops 9))) 0 9))"

subsection \<open>Digits 0 to 17\<close>

text \<open>
  The assignments to \<^verbatim>\<open>result.digits[0]\<close> \<dots> \<^verbatim>\<open>result.digits[17]\<close>, in the order of
  the source, on the zero-initialised array. The operands of \<^verbatim>\<open>/\<close> and \<^verbatim>\<open>%\<close> are
  not negative after the clamp, where C++ and HOL division agree.
\<close>

definition head_digits ::
  "'f float_ops \<Rightarrow> 'f BandMatrix \<Rightarrow> 'f \<Rightarrow> 8 word \<Rightarrow> int \<Rightarrow> (nat \<Rightarrow> 8 word)" where
  "head_digits ops amplitude coh stage_hint pm =
     (let d0 = (\<lambda>_. 0) (0 := word_of_int (pm div 10), 1 := word_of_int (pm mod 10));
          lr = lr_ratio ops amplitude;
          d1 = d0 (2 := word_of_int (lr div 10), 3 := word_of_int (lr mod 10));
          fp = frontal_pct ops amplitude;
          op = occipital_pct ops amplitude;
          d2 = d1 (4 := word_of_int (fp div 10), 5 := word_of_int (fp mod 10),
                   6 := word_of_int (op div 10), 7 := word_of_int (op mod 10));
          cv = coherence_value ops coh;
          d3 = d2 (8 := word_of_int ((cv div 1000) mod 10), 9 := word_of_int ((cv div 100) mod 10),
                   10 := word_of_int ((cv div 10) mod 10), 11 := word_of_int (cv mod 10));
          d4 = fold (\<lambda>band d. d (12 + band := band_digit ops amplitude band)) [0..<BAND_COUNT] d3
      in d4 (17 := stage_hint mod 10))"

subsection \<open>Gate and loop detection\<close>

text \<open>
  One iteration of the loop over the bands: it reads and writes the composer state and
  sets bits of the two flag bytes. \<^verbatim>\<open>1U << band\<close> is a 32-bit value, cast to a byte.
\<close>

definition band_bit :: "nat \<Rightarrow> 8 word" where
  "band_bit band = ucast (push_bit band (1 :: 32 word))"

definition gate_loop_step ::
  "'f float_ops \<Rightarrow> (nat \<Rightarrow> 'f) \<Rightarrow> nat \<Rightarrow> 'f SigprintResult \<times> 'f SigprintComposer \<Rightarrow>
   'f SigprintResult \<times> 'f SigprintComposer" where
  "gate_loop_step ops avg band rs =
     (let res = fst rs; st = snd rs;
          prev = previous_power st band;
          res1 = (if initialized st
                  then (let denom = std_max (flt ops) prev (fconst ops (1 / 10 ^ 3));
                            delta = fdiv ops (ffabs ops (fsub ops (avg band) prev)) denom
                        in if fge ops delta (fconst ops 0.35)
                           then res \<lparr> gate_flags := gate_flags res OR band_bit band \<rparr>
                           else res)
                  else res);
          st1 = st \<lparr> previous_power := (previous_power st) (band := avg band) \<rparr>;
          lookback = (20 :: 32 word);
          history_len = (word_of_nat HISTORY_WINDOW :: 32 word);
          head = history_index st1 band;
          st2 = st1 \<lparr> history := (history st1) (band := (history st1 band) (unat head := avg band)) \<rparr>;
          st3 = st2 \<lparr> history_index := (history_index st2) (band := (head + 1) mod history_len) \<rparr>;
          st4 = (if ucast (history_fill_count st3 band) < history_len
                 then st3 \<lparr> history_fill_count :=
                              (history_fill_count st3) (band := history_fill_count st3 band + 1) \<rparr>
                 else st3);
          res2 = (if initialized st4 \<and> ucast (history_fill_count st4 band) > lookback
                  then (let idx = (head + history_len - lookback) mod history_len;
                            reference = history st4 band (unat idx);
                            denom = std_max (flt ops) reference (fconst ops (1 / 10 ^ 3));
                            deviation = fdiv ops (ffabs ops (fsub ops (avg band) reference)) denom
                        in if fle ops deviation (fconst ops 0.05)
                           then res1 \<lparr> loop_flags := loop_flags res1 OR band_bit band \<rparr>
                           else res1)
                  else res1)
      in (res2, st4))"

subsection \<open>Checksum and entropy\<close>

definition checksum_val :: "(nat \<Rightarrow> 8 word) \<Rightarrow> int" where
  "checksum_val ds =
     (let checksum_seed = fold (\<lambda>i acc. acc + ucast (ds i)) [0..<18] (0 :: 32 word)
      in uint (checksum_seed mod 97))"

definition digit_counts :: "(nat \<Rightarrow> 8 word) \<Rightarrow> (nat \<Rightarrow> 16 word)" where
  "digit_counts ds = fold (\<lambda>i c. c (unat (ds i) := c (unat (ds i)) + 1)) [0..<20] (\<lambda>_. 0)"

definition shannon_entropy :: "'f float_ops \<Rightarrow> (nat \<Rightarrow> 8 word) \<Rightarrow> 'f" where
  "shannon_entropy ops ds =
     (let counts = digit_counts ds;
          total_digits = fof_nat ops 20
      in fold (\<lambda>k e. if counts k = 0 then e
                      else (let p = fdiv ops (fof_nat ops (unat (counts k))) total_digits
                            in fsub ops e (fmul ops p (fdiv ops (flog ops p) (flog ops (fconst ops 2))))))
           [0..<10] (fconst ops 0))"

subsection \<open>compose\<close>

text \<open>
  \<^verbatim>\<open>compose\<close> returns the result and the composer's new state, or \<open>None\<close> when a
  \<^verbatim>\<open>while\<close> loop of the phase offset does not end.
\<close>

definition compose ::
  "'f float_ops \<Rightarrow> 'f SigprintComposer \<Rightarrow> 'f BandMatrix \<Rightarrow> 'f BandMatrix \<Rightarrow> 8 word \<Rightarrow>
   ('f SigprintResult \<times> 'f SigprintComposer) option" where
  "compose ops st amplitude phases stage_hint =
     (let coh = global_coherence ops phases
      in case phase_metric ops phases of
           None \<Rightarrow> None
         | Some pm \<Rightarrow>
             (let result0 = \<lparr> digits = head_digits ops amplitude coh stage_hint pm,
                              coherence = coh, gate_flags = 0, loop_flags = 0,
                              entropy = fconst ops 0 \<rparr>;
                  rs = fold (gate_loop_step ops (avg_power ops amplitude)) [0..<BAND_COUNT] (result0, st);
                  result1 = fst rs;
                  st1 = (snd rs) \<lparr> initialized := True \<rparr>;
                  cs = checksum_val (digits result1);
                  ds = (digits result1) (18 := word_of_int ((cs div 10) mod 10), 19 := word_of_int (cs mod 10))
              in Some (result1 \<lparr> digits := ds, entropy := shannon_entropy ops ds \<rparr>, st1)))"

section \<open>CRC\<close>

text \<open>
  \<^verbatim>\<open>crc16_ccitt\<close>: the register is a \<^verbatim>\<open>uint16_t\<close>, so the shift drops bit 15;
  \<open>crc_bit\<close> is the body of the inner loop, run eight times for each byte.
\<close>

definition crc_bit :: "16 word \<Rightarrow> 16 word" where
  "crc_bit crc =
     (if crc AND 0x8000 \<noteq> 0 then push_bit 1 crc XOR CRC16_POLY else push_bit 1 crc)"

definition crc_byte :: "8 word \<Rightarrow> 16 word \<Rightarrow> 16 word" where
  "crc_byte b crc = (crc_bit ^^ 8) (crc XOR push_bit 8 (ucast b))"

definition crc16_ccitt :: "8 word list \<Rightarrow> 16 word" where
  "crc16_ccitt data = fold crc_byte data CRC16_INIT"

text \<open>
  The CRC that the specification names, CRC-16/CCITT-FALSE, written from its
  parameters and not from the source: a 16-bit register that starts at the initial
  value; for each message bit, the most significant bit of each byte first (no
  reflection), the register is shifted left by one and the polynomial is XORed in when
  the bit shifted out differs from the message bit; the register is the result (no
  final XOR).
\<close>

definition crc_spec_bit :: "16 word \<Rightarrow> bool \<Rightarrow> 16 word \<Rightarrow> 16 word" where
  "crc_spec_bit poly msg_bit reg =
     (if bit reg 15 \<noteq> msg_bit then push_bit 1 reg XOR poly else push_bit 1 reg)"

definition bits_msb_first :: "8 word \<Rightarrow> bool list" where
  "bits_msb_first b = map (\<lambda>j. bit b (7 - j)) [0..<8]"

definition crc_msb_first :: "16 word \<Rightarrow> 16 word \<Rightarrow> 8 word list \<Rightarrow> 16 word" where
  "crc_msb_first poly init data = fold (crc_spec_bit poly) (concat (map bits_msb_first data)) init"

definition crc16_ccitt_false :: "8 word list \<Rightarrow> 16 word" where
  "crc16_ccitt_false data = crc_msb_first 0x1021 0xFFFF data"

section \<open>Packet encoder\<close>

definition writeUint16LE :: "16 word \<Rightarrow> 8 word list" where
  "writeUint16LE v = [ucast (v AND 0xFF), ucast (drop_bit 8 v AND 0xFF)]"

definition writeUint32LE :: "32 word \<Rightarrow> 8 word list" where
  "writeUint32LE v =
     [ucast (v AND 0xFF), ucast (drop_bit 8 v AND 0xFF),
      ucast (drop_bit 16 v AND 0xFF), ucast (drop_bit 24 v AND 0xFF)]"

text \<open>
  One raw sample: an \<^verbatim>\<open>int32_t\<close>, of which the three low bytes are written. The
  shift of a signed value is arithmetic.
\<close>

definition sample_bytes :: "32 word \<Rightarrow> 8 word list" where
  "sample_bytes v =
     [ucast (v AND 0xFF), ucast (signed_drop_bit 8 v AND 0xFF),
      ucast (signed_drop_bit 16 v AND 0xFF)]"

text \<open>
  \<^verbatim>\<open>memcpy\<close> of a float copies the four bytes of its object representation. The
  bit pattern of a float is the parameter \<open>bits\<close>; the target (ESP32-S3) stores the
  least significant byte first.
\<close>

definition memcpy_float :: "('f \<Rightarrow> 32 word) \<Rightarrow> 'f \<Rightarrow> 8 word list" where
  "memcpy_float bits v = writeUint32LE (bits v)"

definition matrix_bytes :: "('f \<Rightarrow> 32 word) \<Rightarrow> 'f BandMatrix \<Rightarrow> 8 word list" where
  "matrix_bytes bits m =
     concat (map (\<lambda>ch. concat (map (\<lambda>band. memcpy_float bits (m ch band)) [0..<BAND_COUNT]))
       [0..<CHANNEL_COUNT])"

definition bcd_byte :: "(nat \<Rightarrow> 8 word) \<Rightarrow> nat \<Rightarrow> 8 word" where
  "bcd_byte ds pair =
     (let high = ds (pair * 2) mod 10; low = ds (pair * 2 + 1) mod 10
      in push_bit 4 high OR low)"

definition encode_payload ::
  "('f \<Rightarrow> 32 word) \<Rightarrow> (nat \<Rightarrow> 32 word) \<Rightarrow> 'f BandMatrix \<Rightarrow> 'f BandMatrix \<Rightarrow>
   'f SigprintResult \<Rightarrow> 8 word \<Rightarrow> 16 word \<Rightarrow> 8 word list" where
  "encode_payload bits raw_samples amplitude phases sigprint stage zipper_freq_hz =
     concat (map (\<lambda>ch. sample_bytes (raw_samples ch)) [0..<CHANNEL_COUNT])
     @ matrix_bytes bits amplitude
     @ matrix_bytes bits phases
     @ map (bcd_byte (digits sigprint)) [0..<20 div 2]
     @ memcpy_float bits (coherence sigprint)
     @ [gate_flags sigprint, loop_flags sigprint]
     @ memcpy_float bits (entropy sigprint)
     @ replicate 4 0
     @ [stage]
     @ writeUint16LE zipper_freq_hz"

text \<open>
  \<^verbatim>\<open>encodePacket\<close> writes every byte of the buffer it is given, so the model returns
  the buffer's new content: the header, then the payload. The CRC is taken over
  \<^verbatim>\<open>PAYLOAD_BYTES\<close> bytes from the start of the payload.
\<close>

definition encodePacket ::
  "('f \<Rightarrow> 32 word) \<Rightarrow> (nat \<Rightarrow> 32 word) \<Rightarrow> 'f BandMatrix \<Rightarrow> 'f BandMatrix \<Rightarrow>
   'f SigprintResult \<Rightarrow> 8 word \<Rightarrow> 16 word \<Rightarrow> 32 word \<Rightarrow> 8 word list" where
  "encodePacket bits raw_samples amplitude phases sigprint stage zipper_freq_hz timestamp_ms =
     (let payload = encode_payload bits raw_samples amplitude phases sigprint stage zipper_freq_hz;
          crc = crc16_ccitt (take PAYLOAD_BYTES payload)
      in writeUint16LE 0x5347
         @ [0x01]
         @ [0x01]
         @ writeUint32LE timestamp_ms
         @ writeUint16LE (word_of_nat PAYLOAD_BYTES)
         @ writeUint16LE crc
         @ payload)"

section \<open>Reading a packet\<close>

text \<open>Little-endian fields of a byte list, at an offset.\<close>

definition read_u16le :: "8 word list \<Rightarrow> nat \<Rightarrow> 16 word" where
  "read_u16le bs off = ucast (bs ! off) OR push_bit 8 (ucast (bs ! (off + 1)))"

definition read_u32le :: "8 word list \<Rightarrow> nat \<Rightarrow> 32 word" where
  "read_u32le bs off =
     ucast (bs ! off) OR push_bit 8 (ucast (bs ! (off + 1)))
     OR push_bit 16 (ucast (bs ! (off + 2))) OR push_bit 24 (ucast (bs ! (off + 3)))"

text \<open>
  The decoder that the specification describes (section 4.3), to be compared with the
  encoder of the source. A frame is the 12-byte header and the payload; the offsets
  below are the layout table's, from the start of the payload. A raw sample is three
  bytes, least significant first, sign-extended from bit 23 (as \<^verbatim>\<open>readFrame\<close> extends
  the converter's samples); a matrix entry is the bit pattern of a little-endian
  \<^verbatim>\<open>f32\<close>, channel-major. The digits are read as the dashboard's script in
  \<^verbatim>\<open>DASHBOARD_HTML\<close> reads them: \<^verbatim>\<open>(bcd >> 4) & 0x0F\<close>, then \<^verbatim>\<open>bcd & 0x0F\<close>, from
  the byte at \<^verbatim>\<open>sigOffset + i\<close>.
\<close>

definition decode_sample :: "8 word list \<Rightarrow> nat \<Rightarrow> 32 word" where
  "decode_sample pkt ch =
     (let off = HEADER_SIZE + 3 * ch;
          v = ucast (pkt ! off) OR push_bit 8 (ucast (pkt ! (off + 1)))
              OR push_bit 16 (ucast (pkt ! (off + 2)))
      in if v AND 0x00800000 \<noteq> 0 then v OR 0xFF000000 else v)"

definition decode_amplitude :: "8 word list \<Rightarrow> nat \<Rightarrow> nat \<Rightarrow> 32 word" where
  "decode_amplitude pkt ch band = read_u32le pkt (HEADER_SIZE + 24 + 4 * (ch * BAND_COUNT + band))"

definition decode_phase :: "8 word list \<Rightarrow> nat \<Rightarrow> nat \<Rightarrow> 32 word" where
  "decode_phase pkt ch band = read_u32le pkt (HEADER_SIZE + 184 + 4 * (ch * BAND_COUNT + band))"

definition decode_digit :: "8 word list \<Rightarrow> nat \<Rightarrow> 8 word" where
  "decode_digit pkt i =
     (let sigOffset = HEADER_SIZE + 344;
          bcd = pkt ! (sigOffset + i div 2)
      in if even i then drop_bit 4 bcd AND 0x0F else bcd AND 0x0F)"

section \<open>Runs, scenarios and the notions of the statements\<close>

text \<open>Successive calls of \<^verbatim>\<open>compose\<close> on one composer, as the main loop makes them: one
  snapshot (amplitudes, phases) and stage for each call; the results in order, and the
  final state.\<close>

fun compose_seq ::
  "'f float_ops \<Rightarrow> 'f SigprintComposer \<Rightarrow> ('f BandMatrix \<times> 'f BandMatrix \<times> 8 word) list \<Rightarrow>
   ('f SigprintResult list \<times> 'f SigprintComposer) option" where
  "compose_seq ops st [] = Some ([], st)"
| "compose_seq ops st (x # xs) =
     (case compose ops st (fst x) (fst (snd x)) (snd (snd x)) of
        None \<Rightarrow> None
      | Some (r, st1) \<Rightarrow>
          (case compose_seq ops st1 xs of
             None \<Rightarrow> None
           | Some (rs, st2) \<Rightarrow> Some (r # rs, st2)))"

text \<open>
  The quantity that the specification compares with the gate and loop thresholds:
  \<open>|m - ref| / max(ref, 10\<^sup>-\<^sup>3)\<close>, in the float operations.
\<close>

definition relative_change :: "'f float_ops \<Rightarrow> 'f \<Rightarrow> 'f \<Rightarrow> 'f" where
  "relative_change ops m ref =
     fdiv ops (ffabs ops (fsub ops m ref)) (std_max (flt ops) ref (fconst ops (1 / 10 ^ 3)))"

text \<open>
  Two abbreviations for the statements about the loop over the bands: the fill count
  after its saturating increment, and the history slot that loop detection reads (the
  slot \<open>lookback\<close> places behind the head, after the write at the head).
\<close>

definition bump_fill :: "16 word \<Rightarrow> 16 word" where
  "bump_fill c = (if (ucast c :: 32 word) < 64 then c + 1 else c)"


text \<open>Test input: the matrix that holds the same value for every channel and band.\<close>

definition uniform_matrix :: "'f \<Rightarrow> 'f BandMatrix" where
  "uniform_matrix x = (\<lambda>ch band. x)"

text \<open>The part of the composer's invariant that a call relies on: no fill count above
  the window.\<close>

definition fill_ok :: "'f SigprintComposer \<Rightarrow> bool" where
  "fill_ok st = (\<forall>b<BAND_COUNT. unat (history_fill_count st b) \<le> HISTORY_WINDOW)"







section \<open>Properties\<close>

lemma length_writeUint16LE: "length (writeUint16LE v) = 2"
  by (simp add: writeUint16LE_def)

lemma length_writeUint32LE: "length (writeUint32LE v) = 4"
  by (simp add: writeUint32LE_def)

subsection \<open>Bytes of a word\<close>

lemma ff8: "(0xFF :: 'a::len word) = mask 8"
  by (simp add: mask_eq_exp_minus_1)

lemma bit_low_byte:
  "bit (ucast (drop_bit k v AND 0xFF) :: 8 word) n \<longleftrightarrow> n < 8 \<and> bit v (k + n)"
  for v :: "'a::len word"
  unfolding ff8 by (auto simp add: bit_simps dest: bit_imp_le_length)

lemma bit_low_byte0:
  "bit (ucast (v AND 0xFF) :: 8 word) n \<longleftrightarrow> n < 8 \<and> bit v n"
  for v :: "'a::len word"
  using bit_low_byte [of 0 v n] by simp

lemma bit_signed_byte:
  "k \<le> 16 \<Longrightarrow> bit (ucast (signed_drop_bit k v AND 0xFF) :: 8 word) n \<longleftrightarrow> n < 8 \<and> bit v (k + n)"
  for v :: "32 word"
  unfolding ff8 by (auto simp add: bit_simps)

lemma bit_shifted_byte:
  "bit (push_bit k (ucast b :: 'a::len word)) n \<longleftrightarrow> k \<le> n \<and> n < LENGTH('a) \<and> n - k < 8 \<and> bit b (n - k)"
  for b :: "8 word"
  by (auto simp add: bit_simps dest: bit_imp_le_length)

lemma bit_ucast_byte:
  "bit (ucast b :: 'a::len word) n \<longleftrightarrow> n < LENGTH('a) \<and> n < 8 \<and> bit b n"
  for b :: "8 word"
  using bit_shifted_byte [of 0 b n, where 'a='a] by simp

lemma bit_writeUint16LE:
  "i < 2 \<Longrightarrow> bit (writeUint16LE v ! i) n \<longleftrightarrow> n < 8 \<and> bit v (8 * i + n)"
proof -
  assume "i < 2"
  then consider "i = 0" | "i = 1" by linarith
  then show ?thesis
    by cases (auto simp add: writeUint16LE_def bit_low_byte bit_low_byte0 bit_drop_bit_eq)
qed

lemma bit_writeUint32LE:
  "i < 4 \<Longrightarrow> bit (writeUint32LE v ! i) n \<longleftrightarrow> n < 8 \<and> bit v (8 * i + n)"
proof -
  assume "i < 4"
  then consider "i = 0" | "i = 1" | "i = 2" | "i = 3" by linarith
  then show ?thesis
    by cases (auto simp add: writeUint32LE_def bit_low_byte bit_low_byte0 bit_drop_bit_eq)
qed

lemma bit_sample_bytes:
  "i < 3 \<Longrightarrow> bit (sample_bytes v ! i) n \<longleftrightarrow> n < 8 \<and> bit v (8 * i + n)"
proof -
  assume "i < 3"
  then consider "i = 0" | "i = 1" | "i = 2" by linarith
  then show ?thesis
    by cases (auto simp add: sample_bytes_def bit_signed_byte bit_low_byte0 bit_signed_drop_bit_iff)
qed

lemma div_mod_8_cases:
  fixes n :: nat
  assumes "8 * k \<le> n" "n < 8 * k + 8"
  shows "n div 8 = k" "n mod 8 = n - 8 * k"
proof -
  show "n div 8 = k" using assms by linarith 
  then show "n mod 8 = n - 8 * k" by (metis minus_mult_div_eq_mod)
qed

lemma bit_read_u16le:
  "bit (read_u16le bs off) n \<longleftrightarrow> n < 16 \<and> bit (bs ! (off + n div 8)) (n mod 8)"
proof -
  consider "n < 8" | "8 \<le> n \<and> n < 16" | "16 \<le> n" by linarith
  then show ?thesis
  proof cases
    case 1 then show ?thesis
      using div_mod_8_cases [of 0 n]
      by (auto simp add: read_u16le_def bit_or_iff bit_shifted_byte bit_ucast_byte)
  next
    case 2 then show ?thesis
      using div_mod_8_cases [of 1 n]
      by (auto simp add: read_u16le_def bit_or_iff bit_shifted_byte bit_ucast_byte)
  next
    case 3 then show ?thesis
      by (auto simp add: read_u16le_def bit_or_iff bit_shifted_byte bit_ucast_byte)
  qed
qed

lemma bit_read_u32le:
  "bit (read_u32le bs off) n \<longleftrightarrow> n < 32 \<and> bit (bs ! (off + n div 8)) (n mod 8)"
proof -
  consider "n < 8" | "8 \<le> n \<and> n < 16" | "16 \<le> n \<and> n < 24" | "24 \<le> n \<and> n < 32" | "32 \<le> n" by linarith
  then show ?thesis
  proof cases
    case 1 then show ?thesis
      using div_mod_8_cases [of 0 n]
      by (auto simp add: read_u32le_def bit_or_iff bit_shifted_byte bit_ucast_byte)
  next
    case 2 then show ?thesis
      using div_mod_8_cases [of 1 n]
      by (auto simp add: read_u32le_def bit_or_iff bit_shifted_byte bit_ucast_byte)
  next
    case 3 then show ?thesis
      using div_mod_8_cases [of 2 n]
      by (auto simp add: read_u32le_def bit_or_iff bit_shifted_byte bit_ucast_byte)
  next
    case 4 then show ?thesis
      using div_mod_8_cases [of 3 n]
      by (auto simp add: read_u32le_def bit_or_iff bit_shifted_byte bit_ucast_byte)
  next
    case 5 then show ?thesis
      by (auto simp add: read_u32le_def bit_or_iff bit_shifted_byte bit_ucast_byte)
  qed
qed

subsection \<open>The frame\<close>

text \<open>
  The check value of CRC-16/CCITT-FALSE (polynomial \<open>0x1021\<close>, initial value
  \<open>0xFFFF\<close>, most significant bit first, no final XOR) is \<open>0x29B1\<close> on the nine
  ASCII bytes \<^verbatim>\<open>123456789\<close>; \<open>crc16_ccitt\<close> computes it.
\<close>

lemma crc16_ccitt_check_value:
  "crc16_ccitt [0x31, 0x32, 0x33, 0x34, 0x35, 0x36, 0x37, 0x38, 0x39] = 0x29B1"
  by code_simp

text \<open>
  The byte-wise loop of the source computes the bit-serial CRC of the specification:
  XORing a byte into the high half of the register and shifting eight times is the
  same as feeding its bits one by one, most significant first.
\<close>

lemma top_bit_test: "v AND 0x8000 \<noteq> 0 \<longleftrightarrow> bit v 15" for v :: "16 word"
proof -
  have "(0x8000 :: 16 word) = 2 ^ 15" by simp
  then show ?thesis by (simp only: and_exp_eq_0_iff_not_bit) simp
qed

lemma crc_bit_xor:
  "crc_bit (reg XOR d) = crc_spec_bit CRC16_POLY (bit d 15) reg XOR push_bit 1 d"
proof -
  have s: "push_bit 1 (reg XOR d) = push_bit 1 reg XOR push_bit 1 d"
    by (rule bit_word_eqI) (auto simp add: bit_simps)
  have t: "(reg XOR d) AND 0x8000 \<noteq> 0 \<longleftrightarrow> bit reg 15 \<noteq> bit d 15"
    by (simp only: top_bit_test bit_xor_iff)
  show ?thesis
    unfolding crc_bit_def crc_spec_bit_def t s
    by (simp add: xor.assoc xor.commute xor.left_commute)
qed

lemma crc_bits_serial:
  "k \<le> 16 \<Longrightarrow> (\<forall>n. bit d n \<longrightarrow> 16 - k \<le> n) \<Longrightarrow>
   (crc_bit ^^ k) (reg XOR d) = fold (crc_spec_bit CRC16_POLY) (map (\<lambda>j. bit d (15 - j)) [0..<k]) reg"
proof (induction k arbitrary: reg d)
  case 0
  then have "d = 0" by (intro bit_word_eqI) (auto dest: bit_imp_le_length)
  then show ?case by simp
next
  case (Suc k)
  let ?r = "crc_spec_bit CRC16_POLY (bit d 15) reg"
  let ?d = "push_bit 1 d :: 16 word"
  have k: "k \<le> 16" using Suc.prems(1) by simp
  have low: "\<forall>n. bit ?d n \<longrightarrow> 16 - k \<le> n"
  proof (intro allI impI)
    fix n assume "bit ?d n"
    then have "1 \<le> n" "bit d (n - 1)" unfolding bit_push_bit_iff by simp_all
    then have "16 - Suc k \<le> n - 1" using Suc.prems(2) by blast
    then show "16 - k \<le> n" using \<open>1 \<le> n\<close> by linarith
  qed
  have shift: "map (\<lambda>j. bit ?d (15 - j)) [0..<k] = map (\<lambda>j. bit d (15 - Suc j)) [0..<k]"
  proof (rule map_cong [OF refl])
    fix j assume "j \<in> set [0..<k]"
    then have "j < 15" using Suc.prems(1) by simp
    then have "15 - j - 1 = 15 - Suc j" "1 \<le> 15 - j" "15 - j < 16" by simp_all
    then show "bit ?d (15 - j) = bit d (15 - Suc j)"
      unfolding bit_push_bit_iff by (simp add: possible_bit_word)
  qed
  have "(crc_bit ^^ Suc k) (reg XOR d) = (crc_bit ^^ k) (crc_bit (reg XOR d))"
    by (simp only: funpow_Suc_right o_apply)
  also have "\<dots> = (crc_bit ^^ k) (?r XOR ?d)" by (simp only: crc_bit_xor)
  also have "\<dots> = fold (crc_spec_bit CRC16_POLY) (map (\<lambda>j. bit ?d (15 - j)) [0..<k]) ?r"
    by (rule Suc.IH [OF k low])
  also have "\<dots> = fold (crc_spec_bit CRC16_POLY) (map (\<lambda>j. bit d (15 - Suc j)) [0..<k]) ?r"
    by (simp only: shift)
  also have "\<dots> = fold (crc_spec_bit CRC16_POLY) (map (\<lambda>j. bit d (15 - j)) [0..<Suc k]) reg"
    by (simp only: upt_conv_Cons [of 0 "Suc k"] map_Suc_upt [symmetric]) (simp add: comp_def)
  finally show ?case .
qed

lemma crc_byte_serial: "crc_byte b reg = fold (crc_spec_bit CRC16_POLY) (bits_msb_first b) reg"
proof -
  let ?d = "push_bit 8 (ucast b) :: 16 word"
  have low: "\<forall>n. bit ?d n \<longrightarrow> 16 - 8 \<le> n" by (auto simp add: bit_simps)
  have "map (\<lambda>j. bit ?d (15 - j)) [0..<8] = bits_msb_first b"
    unfolding bits_msb_first_def
  proof (rule map_cong [OF refl])
    fix j assume "j \<in> set [0..<8]"
    then have j: "j < 8" by simp
    then have "15 - j - 8 = 7 - j" by simp
    then show "bit ?d (15 - j) = bit b (7 - j)"
      using j by (auto simp add: bit_shifted_byte)
  qed
  with crc_bits_serial [OF _ low, of reg] show ?thesis
    by (simp add: crc_byte_def)
qed

lemma crc_fold_serial:
  "fold crc_byte data reg = fold (crc_spec_bit CRC16_POLY) (concat (map bits_msb_first data)) reg"
  by (induction data arbitrary: reg) (simp_all add: crc_byte_serial)

lemma crc16_ccitt_is_ccitt_false: "crc16_ccitt data = crc16_ccitt_false data"
  by (simp add: crc16_ccitt_def crc16_ccitt_false_def crc_msb_first_def crc_fold_serial
      CRC16_POLY_def CRC16_INIT_def)

lemma read_write_u16: "read_u16le (writeUint16LE v) 0 = v"
  by (rule bit_word_eqI) (auto simp add: bit_read_u16le bit_writeUint16LE)

lemma read_write_u32: "read_u32le (writeUint32LE v) 0 = v"
  by (rule bit_word_eqI) (auto simp add: bit_read_u32le bit_writeUint32LE)

lemma read_u16le_shift: "read_u16le (xs @ ys) (length xs + k) = read_u16le ys k"
  by (simp add: read_u16le_def nth_append)

lemma read_u32le_shift: "read_u32le (xs @ ys) (length xs + k) = read_u32le ys k"
  by (simp add: read_u32le_def nth_append)

lemma read_u16le_prefix: "k + 2 \<le> length xs \<Longrightarrow> read_u16le (xs @ ys) k = read_u16le xs k"
  by (simp add: read_u16le_def nth_append)

lemma read_u32le_prefix: "k + 4 \<le> length xs \<Longrightarrow> read_u32le (xs @ ys) k = read_u32le xs k"
  by (simp add: read_u32le_def nth_append)

lemma length_matrix_bytes: "length (matrix_bytes bits m) = 160"
  by (simp add: matrix_bytes_def memcpy_float_def length_writeUint32LE CHANNEL_COUNT_def BAND_COUNT_def length_concat comp_def sum_list_triv)

lemma length_samples: "length (concat (map (\<lambda>ch. sample_bytes (raw ch)) [0..<CHANNEL_COUNT])) = 24"
  by (simp add: sample_bytes_def CHANNEL_COUNT_def length_concat comp_def sum_list_triv)

lemma length_encode_payload: "length (encode_payload bits raw a p s st z) = 371"
  by (simp add: encode_payload_def length_matrix_bytes length_samples memcpy_float_def length_writeUint32LE length_writeUint16LE)

lemma PAYLOAD_BYTES_eq: "PAYLOAD_BYTES = 371"
  by (simp add: PAYLOAD_BYTES_def EEG_PAYLOAD_BYTES_def SIGPRINT_PAYLOAD_BYTES_def)

lemma encodePacket_split:
  "encodePacket bits raw a p s st z ts =
     (writeUint16LE 0x5347 @ [0x01, 0x01] @ writeUint32LE ts @ writeUint16LE 371
       @ writeUint16LE (crc16_ccitt (encode_payload bits raw a p s st z)))
     @ encode_payload bits raw a p s st z"
  by (simp add: encodePacket_def Let_def PAYLOAD_BYTES_eq length_encode_payload)

lemma drop_prefix: "length xs = n \<Longrightarrow> drop n (xs @ ys) = ys"
  by simp

lemma take_drop_middle: "length xs = n \<Longrightarrow> length ys = k \<Longrightarrow> take k (drop n (xs @ ys @ zs)) = ys"
  by simp

lemma payload_reserved:
  "take 4 (drop 364 (encode_payload bits raw a p s st z)) = [0, 0, 0, 0]"
proof -
  let ?pre = "concat (map (\<lambda>ch. sample_bytes (raw ch)) [0..<CHANNEL_COUNT])
     @ matrix_bytes bits a @ matrix_bytes bits p
     @ map (bcd_byte (digits s)) [0..<20 div 2]
     @ memcpy_float bits (coherence s)
     @ [gate_flags s, loop_flags s]
     @ memcpy_float bits (entropy s)"
  let ?post = "[st] @ writeUint16LE z"
  have split: "encode_payload bits raw a p s st z = ?pre @ replicate 4 0 @ ?post"
    by (simp add: encode_payload_def)
  have len: "length ?pre = 364"
    by (simp add: length_matrix_bytes length_samples memcpy_float_def length_writeUint32LE)
  have r: "replicate 4 (0::8 word) = [0, 0, 0, 0]"
    by (simp add: numeral_eq_Suc)
  have "take 4 (drop 364 (?pre @ replicate 4 0 @ ?post)) = replicate 4 0"
    by (rule take_drop_middle [OF len]) simp
  then show ?thesis
    unfolding split r .
qed

text \<open>
  Claim C4. For every input, \<open>encodePacket\<close> produces 383 bytes: a 12-byte header
  followed by 371 payload bytes. The header holds the magic \<open>0x5347\<close> little-endian at
  offset 0 (bytes \<open>0x47\<close>, \<open>0x53\<close>), version 1 at offset 2, type 1 at offset 3, the
  caller's timestamp as a little-endian 32-bit field at offset 4, the payload length
  371 at offset 8 and, at offset 10, the CRC of exactly the 371 payload bytes: the
  value of the source's \<open>crc16_ccitt\<close>, which is CRC-16/CCITT-FALSE (polynomial
  \<open>0x1021\<close>, initial value \<open>0xFFFF\<close>, no reflection, no final XOR). Payload bytes 364
  to 367 are zero.
\<close>

theorem encodePacket_layout:
  "length (encodePacket bits raw a p s st z ts) = 383
   \<and> length (drop 12 (encodePacket bits raw a p s st z ts)) = 371
   \<and> read_u16le (encodePacket bits raw a p s st z ts) 0 = 0x5347
   \<and> encodePacket bits raw a p s st z ts ! 0 = 0x47
   \<and> encodePacket bits raw a p s st z ts ! 1 = 0x53
   \<and> encodePacket bits raw a p s st z ts ! 2 = 0x01
   \<and> encodePacket bits raw a p s st z ts ! 3 = 0x01
   \<and> read_u32le (encodePacket bits raw a p s st z ts) 4 = ts
   \<and> read_u16le (encodePacket bits raw a p s st z ts) 8 = 371
   \<and> read_u16le (encodePacket bits raw a p s st z ts) 10
       = crc16_ccitt (drop 12 (encodePacket bits raw a p s st z ts))
   \<and> read_u16le (encodePacket bits raw a p s st z ts) 10
       = crc16_ccitt_false (drop 12 (encodePacket bits raw a p s st z ts))
   \<and> take 4 (drop 364 (drop 12 (encodePacket bits raw a p s st z ts))) = [0, 0, 0, 0]"
proof -
  let ?pl = "encode_payload bits raw a p s st z"
  let ?crc = "crc16_ccitt ?pl"
  let ?h = "writeUint16LE 0x5347 @ [0x01, 0x01] @ writeUint32LE ts @ writeUint16LE 371 @ writeUint16LE ?crc"
  have pkt: "encodePacket bits raw a p s st z ts = ?h @ ?pl" by (rule encodePacket_split)
  have lh: "length ?h = 12" by (simp add: length_writeUint16LE length_writeUint32LE)
  have dr: "drop 12 (?h @ ?pl) = ?pl" by (rule drop_prefix [OF lh])
  have magic: "writeUint16LE 0x5347 = [0x47, 0x53]" by (simp add: writeUint16LE_def)
  have r0: "read_u16le (?h @ ?pl) 0 = 0x5347"
    using read_u16le_prefix [of 0 "writeUint16LE 0x5347"] read_write_u16 [of "0x5347"]
    by (simp add: length_writeUint16LE)
  have r4: "read_u32le (?h @ ?pl) 4 = ts"
    using read_u32le_shift [of "writeUint16LE 0x5347 @ [0x01, 0x01]" _ 0]
      read_u32le_prefix [of 0 "writeUint32LE ts"] read_write_u32 [of ts]
    by (simp add: length_writeUint16LE length_writeUint32LE)
  have r8: "read_u16le (?h @ ?pl) 8 = 371"
    using read_u16le_shift [of "writeUint16LE 0x5347 @ [0x01, 0x01] @ writeUint32LE ts" _ 0]
      read_u16le_prefix [of 0 "writeUint16LE 371"] read_write_u16 [of 371]
    by (simp add: length_writeUint16LE length_writeUint32LE)
  have r10: "read_u16le (?h @ ?pl) 10 = ?crc"
    using read_u16le_shift [of "writeUint16LE 0x5347 @ [0x01, 0x01] @ writeUint32LE ts @ writeUint16LE 371" _ 0]
      read_u16le_prefix [of 0 "writeUint16LE ?crc"] read_write_u16 [of ?crc]
    by (simp add: length_writeUint16LE length_writeUint32LE)
  have b: "(?h @ ?pl) ! 0 = 0x47" "(?h @ ?pl) ! 1 = 0x53" "(?h @ ?pl) ! 2 = 0x01" "(?h @ ?pl) ! 3 = 0x01"
    by (simp_all add: magic)
  have r10': "read_u16le (?h @ ?pl) 10 = crc16_ccitt_false ?pl"
    using r10 by (simp only: crc16_ccitt_is_ccitt_false)
  show ?thesis
    unfolding pkt dr using lh r0 r4 r8 r10 r10' b
    by (simp add: length_encode_payload payload_reserved)
qed

subsection \<open>The idealised instance: compose returns\<close>

lemma real_ops_sel:
  "fadd real_ops = (+)" "fsub real_ops = (-)" "fmul real_ops = (*)" "fdiv real_ops = (/)"
  "flt real_ops = (<)" "fle real_ops = (\<le>)" "fconst real_ops = (\<lambda>x. x)" "fof_nat real_ops = real"
  "fsqrt real_ops = sqrt" "fsin real_ops = sin" "fcos real_ops = cos" "fexp real_ops = exp"
  "flog real_ops = ln" "fatan2 real_ops = atan2_real" "ffabs real_ops = abs"
  "flround real_ops = lround_real"
  by (simp_all add: real_ops_def)

lemma wrap_up_real_aux:
  "- 360 * real n \<le> d \<Longrightarrow> \<exists>d'. wrap_up real_ops d = Some d'"
proof (induction n arbitrary: d)
  case 0
  then have "\<not> d < 0" by simp
  then show ?case by (subst wrap_up.simps) (simp add: real_ops_sel)
next
  case (Suc n)
  show ?case
  proof (cases "d < 0")
    case True
    have "- 360 * real n \<le> d + 360" using Suc.prems by (simp add: algebra_simps)
    from Suc.IH [OF this] obtain d' where "wrap_up real_ops (d + 360) = Some d'" ..
    then show ?thesis using True by (subst wrap_up.simps) (simp add: real_ops_sel)
  next
    case False
    then show ?thesis by (subst wrap_up.simps) (simp add: real_ops_sel)
  qed
qed

lemma wrap_up_real_total: "\<exists>d'. wrap_up real_ops d = Some d'"
proof -
  obtain n :: nat where "- d / 360 \<le> real n" using real_arch_simple by blast
  then have "- 360 * real n \<le> d" by (simp add: field_simps)
  then show ?thesis by (rule wrap_up_real_aux)
qed

lemma wrap_down_real_aux:
  "d \<le> 360 * real n \<Longrightarrow> \<exists>d'. wrap_down real_ops d = Some d'"
proof (induction n arbitrary: d)
  case 0
  then have "\<not> 360 \<le> d" by simp
  then show ?case by (subst wrap_down.simps) (simp add: real_ops_sel fge_def)
next
  case (Suc n)
  show ?case
  proof (cases "360 \<le> d")
    case True
    have "d - 360 \<le> 360 * real n" using Suc.prems by (simp add: algebra_simps)
    from Suc.IH [OF this] obtain d' where "wrap_down real_ops (d - 360) = Some d'" ..
    then show ?thesis using True by (subst wrap_down.simps) (simp add: real_ops_sel fge_def)
  next
    case False
    then show ?thesis by (subst wrap_down.simps) (simp add: real_ops_sel fge_def)
  qed
qed

lemma wrap_down_real_total: "\<exists>d'. wrap_down real_ops d = Some d'"
proof -
  obtain n :: nat where "d / 360 \<le> real n" using real_arch_simple by blast
  then have "d \<le> 360 * real n" by (simp add: field_simps)
  then show ?thesis by (rule wrap_down_real_aux)
qed

lemma phase_metric_real_total: "\<exists>pm. phase_metric real_ops phases = Some pm"
proof -
  let ?d = "fdiv real_ops (fmul real_ops (fsub real_ops (mean_angle real_ops phases LEFT_INDICES)
     (mean_angle real_ops phases RIGHT_INDICES)) (fconst real_ops 180)) (fconst real_ops PI_F)"
  obtain d1 where d1: "wrap_up real_ops ?d = Some d1" using wrap_up_real_total by blast
  obtain d2 where d2: "wrap_down real_ops d1 = Some d2" using wrap_down_real_total by blast
  show ?thesis by (simp add: phase_metric_def Let_def d1 d2)
qed

lemma compose_real_total: "\<exists>r st'. compose real_ops st amplitude phases stage_hint = Some (r, st')"
proof -
  obtain pm where "phase_metric real_ops phases = Some pm" using phase_metric_real_total by blast
  then show ?thesis by (simp add: compose_def Let_def)
qed

subsection \<open>Checksum\<close>

lemma gate_loop_step_digits: "digits (fst (gate_loop_step ops avg band rs)) = digits (fst rs)"
  by (simp add: gate_loop_step_def Let_def)

lemma gate_loop_fold_digits:
  "digits (fst (fold (gate_loop_step ops avg) bs rs)) = digits (fst rs)"
  by (induction bs arbitrary: rs) (simp_all add: gate_loop_step_digits)

lemma gate_loop_step_coherence: "coherence (fst (gate_loop_step ops avg band rs)) = coherence (fst rs)"
  by (simp add: gate_loop_step_def Let_def)

lemma gate_loop_fold_coherence:
  "coherence (fst (fold (gate_loop_step ops avg) bs rs)) = coherence (fst rs)"
  by (induction bs arbitrary: rs) (simp_all add: gate_loop_step_coherence)

lemma checksum_seed_unat:
  "n \<le> 18 \<Longrightarrow> unat (fold (\<lambda>i acc. acc + ucast (ds i)) [0..<n] (0 :: 32 word)) = (\<Sum>i<n. unat (ds i :: 8 word))
      \<and> (\<Sum>i<n. unat (ds i)) \<le> 255 * n"
proof (induction n)
  case 0
  show ?case by simp
next
  case (Suc n)
  then have IH: "unat (fold (\<lambda>i acc. acc + ucast (ds i)) [0..<n] (0 :: 32 word)) = (\<Sum>i<n. unat (ds i))"
    and B: "(\<Sum>i<n. unat (ds i)) \<le> 255 * n" by simp_all
  have d8: "unat (ds n) < 2 ^ 8" using unsigned_less [of "ds n", where 'a = nat] by simp
  then have d: "unat (ds n) \<le> 255" by simp
  have "unat (ds n) < 2 ^ 32" using d by simp
  then have u: "unat (ucast (ds n) :: 32 word) = unat (ds n)"
    by (simp add: unsigned_ucast_eq take_bit_nat_eq_self)
  have "(\<Sum>i<n. unat (ds i)) + unat (ds n) < 2 ^ 32" using B d Suc.prems by simp
  then have "unat (fold (\<lambda>i acc. acc + ucast (ds i)) [0..<n] (0 :: 32 word) + ucast (ds n)) = (\<Sum>i<n. unat (ds i)) + unat (ds n)"
    using IH u by (simp add: unat_word_ariths)
  then show ?case using B d by simp
qed

lemma checksum_val_eq: "checksum_val ds = int ((\<Sum>i<18. unat (ds i)) mod 97)"
proof -
  have "unat (fold (\<lambda>i acc. acc + ucast (ds i)) [0..<18] (0 :: 32 word)) = (\<Sum>i<18. unat (ds i))"
    using checksum_seed_unat [of 18 ds] by simp
  then show ?thesis
    by (simp add: checksum_val_def Let_def uint_nat unat_mod)
qed

lemma compose_digits_shape:
  assumes "compose ops st amplitude phases stage_hint = Some (r, st')"
  obtains pm where "phase_metric ops phases = Some pm"
    and "digits r = (head_digits ops amplitude (global_coherence ops phases) stage_hint pm)
           (18 := word_of_int ((checksum_val (head_digits ops amplitude (global_coherence ops phases) stage_hint pm) div 10) mod 10),
            19 := word_of_int (checksum_val (head_digits ops amplitude (global_coherence ops phases) stage_hint pm) mod 10))"
  using assms
  by (auto simp add: compose_def Let_def gate_loop_fold_digits split: option.splits)

text \<open>
  Claim C3. In every result that \<open>compose\<close> returns, digits 18 and 19 are the tens and
  the ones digit of the sum of digits 0 to 17 modulo 97.
\<close>

theorem compose_checksum:
  "compose ops st amplitude phases stage_hint = Some (r, st') \<Longrightarrow>
     unat (digits r 18) = ((\<Sum>i<18. unat (digits r i)) mod 97) div 10
     \<and> unat (digits r 19) = ((\<Sum>i<18. unat (digits r i)) mod 97) mod 10"
proof -
  assume c: "compose ops st amplitude phases stage_hint = Some (r, st')"
  from c obtain pm where
    ds: "digits r = (head_digits ops amplitude (global_coherence ops phases) stage_hint pm)
           (18 := word_of_int ((checksum_val (head_digits ops amplitude (global_coherence ops phases) stage_hint pm) div 10) mod 10),
            19 := word_of_int (checksum_val (head_digits ops amplitude (global_coherence ops phases) stage_hint pm) mod 10))"
    by (rule compose_digits_shape)
  let ?h = "head_digits ops amplitude (global_coherence ops phases) stage_hint pm"
  let ?s = "\<Sum>i<18. unat (?h i)"
  have same: "(\<Sum>i<18. unat (digits r i)) = ?s"
    by (rule sum.cong) (simp_all add: ds)
  define c where "c = ?s mod 97"
  have lt: "c < 97" by (simp add: c_def)
  have cs: "checksum_val ?h = int c" unfolding c_def by (rule checksum_val_eq)
  have "(int c div 10) mod 10 = int (c div 10)"
    using lt by (simp add: zdiv_int [symmetric] zmod_int [symmetric])
  then have t: "unat (word_of_int ((int c div 10) mod 10) :: 8 word) = c div 10"
    using lt by (simp add: unat_of_nat)
  have "int c mod 10 = int (c mod 10)"
    by (simp add: zmod_int)
  then have o: "unat (word_of_int (int c mod 10) :: 8 word) = c mod 10"
    by (simp add: unat_of_nat)
  have d18: "digits r 18 = word_of_int ((int c div 10) mod 10)" by (simp add: ds cs)
  have d19: "digits r 19 = word_of_int (int c mod 10)" by (simp add: ds cs)
  show ?thesis
    unfolding same d18 d19 t o c_def [symmetric] by (rule conjI) (rule refl)+
qed

theorem compose_checksum_witness:
  "\<exists>r st'. compose real_ops (new_composer real_ops) (\<lambda>_ _. 0) (\<lambda>_ _. 0) 0 = Some (r, st')
     \<and> unat (digits r 18) = ((\<Sum>i<18. unat (digits r i)) mod 97) div 10
     \<and> unat (digits r 19) = ((\<Sum>i<18. unat (digits r i)) mod 97) mod 10"
proof -
  obtain r st' where c: "compose real_ops (new_composer real_ops) (\<lambda>_ _. 0) (\<lambda>_ _. 0) 0 = Some (r, st')"
    using compose_real_total by blast
  from compose_checksum [OF c] c show ?thesis by blast
qed

subsection \<open>The loop over the bands\<close>

text \<open>What one iteration does to the state and to the flags.\<close>

lemma gate_loop_step_state:
  "snd (gate_loop_step ops avg band (res, st)) =
     st \<lparr> previous_power := (previous_power st) (band := avg band),
          history := (history st) (band := (history st band) (unat (history_index st band) := avg band)),
          history_index := (history_index st) (band := (history_index st band + 1) mod 64),
          history_fill_count := (history_fill_count st) (band := bump_fill (history_fill_count st band)) \<rparr>"
  by (simp add: gate_loop_step_def Let_def bump_fill_def HISTORY_WINDOW_def)

lemma gate_loop_step_gate:
  "gate_flags (fst (gate_loop_step ops avg band (res, st))) =
     (if initialized st \<and> fge ops (relative_change ops (avg band) (previous_power st band)) (fconst ops 0.35)
      then gate_flags res OR band_bit band else gate_flags res)"
  by (simp add: gate_loop_step_def Let_def relative_change_def)



lemma gate_loop_fold_state:
  "snd (fold (gate_loop_step ops avg) [0..<n] (res, st)) =
     st \<lparr> previous_power := (\<lambda>b. if b < n then avg b else previous_power st b),
          history := (\<lambda>b. if b < n then (history st b) (unat (history_index st b) := avg b) else history st b),
          history_index := (\<lambda>b. if b < n then (history_index st b + 1) mod 64 else history_index st b),
          history_fill_count :=
            (\<lambda>b. if b < n then bump_fill (history_fill_count st b) else history_fill_count st b) \<rparr>"
proof (induction n)
  case 0
  show ?case by simp
next
  case (Suc n)
  let ?X = "fold (gate_loop_step ops avg) [0..<n] (res, st)"
  have "snd (fold (gate_loop_step ops avg) [0..<Suc n] (res, st))
          = snd (gate_loop_step ops avg n (fst ?X, snd ?X))"
    by simp
  also have "\<dots> = (snd ?X) \<lparr> previous_power := (previous_power (snd ?X)) (n := avg n),
          history := (history (snd ?X)) (n := (history (snd ?X) n) (unat (history_index (snd ?X) n) := avg n)),
          history_index := (history_index (snd ?X)) (n := (history_index (snd ?X) n + 1) mod 64),
          history_fill_count := (history_fill_count (snd ?X)) (n := bump_fill (history_fill_count (snd ?X) n)) \<rparr>"
    by (rule gate_loop_step_state)
  finally show ?case
    unfolding Suc.IH by (simp add: fun_eq_iff less_Suc_eq)
qed

lemma gate_loop_fold_initialized:
  "initialized (snd (fold (gate_loop_step ops avg) [0..<n] (res, st))) = initialized st"
  by (simp add: gate_loop_fold_state)

lemma gate_loop_fold_gate_Suc:
  "gate_flags (fst (fold (gate_loop_step ops avg) [0..<Suc n] (res, st))) =
     (if initialized st \<and> fge ops (relative_change ops (avg n) (previous_power st n)) (fconst ops 0.35)
      then gate_flags (fst (fold (gate_loop_step ops avg) [0..<n] (res, st))) OR band_bit n
      else gate_flags (fst (fold (gate_loop_step ops avg) [0..<n] (res, st))))"
proof -
  let ?X = "fold (gate_loop_step ops avg) [0..<n] (res, st)"
  have "gate_flags (fst (fold (gate_loop_step ops avg) [0..<Suc n] (res, st)))
          = gate_flags (fst (gate_loop_step ops avg n (fst ?X, snd ?X)))"
    by simp
  then show ?thesis
    unfolding gate_loop_step_gate by (simp add: gate_loop_fold_state)
qed


lemma bit_band_bit: "bit (band_bit b) k \<longleftrightarrow> k = b \<and> b < 8"
  by (auto simp add: band_bit_def bit_simps)

lemma gate_loop_fold_gate_bit:
  "n \<le> 8 \<Longrightarrow>
   bit (gate_flags (fst (fold (gate_loop_step ops avg) [0..<n] (res, st)))) k \<longleftrightarrow>
     bit (gate_flags res) k
     \<or> (k < n \<and> initialized st
         \<and> fge ops (relative_change ops (avg k) (previous_power st k)) (fconst ops 0.35))"
proof (induction n)
  case 0
  show ?case by simp
next
  case (Suc n)
  then have IH: "bit (gate_flags (fst (fold (gate_loop_step ops avg) [0..<n] (res, st)))) k \<longleftrightarrow>
     bit (gate_flags res) k
     \<or> (k < n \<and> initialized st
         \<and> fge ops (relative_change ops (avg k) (previous_power st k)) (fconst ops 0.35))"
    and n: "n < 8" by simp_all
  show ?case
    unfolding gate_loop_fold_gate_Suc using n
    by (auto simp add: bit_or_iff bit_band_bit IH less_Suc_eq)
qed


subsection \<open>What compose does to the state and the flags\<close>

lemma compose_SomeD:
  assumes "compose ops st amplitude phases stage_hint = Some (r, st')"
  obtains res0 where
    "gate_flags res0 = 0" "loop_flags res0 = 0"
    "st' = (snd (fold (gate_loop_step ops (avg_power ops amplitude)) [0..<BAND_COUNT] (res0, st)))
             \<lparr> initialized := True \<rparr>"
    "gate_flags r = gate_flags (fst (fold (gate_loop_step ops (avg_power ops amplitude)) [0..<BAND_COUNT] (res0, st)))"
    "loop_flags r = loop_flags (fst (fold (gate_loop_step ops (avg_power ops amplitude)) [0..<BAND_COUNT] (res0, st)))"
    "coherence r = global_coherence ops phases"
proof -
  from assms obtain pm where pm: "phase_metric ops phases = Some pm"
    by (auto simp add: compose_def Let_def split: option.splits)
  let ?res0 = "\<lparr> digits = head_digits ops amplitude (global_coherence ops phases) stage_hint pm,
                  coherence = global_coherence ops phases, gate_flags = 0, loop_flags = 0,
                  entropy = fconst ops 0 \<rparr>"
  show thesis
  proof (rule that [of ?res0])
    show "gate_flags ?res0 = 0" "loop_flags ?res0 = 0" by simp_all
    show "st' = (snd (fold (gate_loop_step ops (avg_power ops amplitude)) [0..<BAND_COUNT] (?res0, st)))
             \<lparr> initialized := True \<rparr>"
      using assms pm by (simp add: compose_def Let_def)
    show "gate_flags r = gate_flags (fst (fold (gate_loop_step ops (avg_power ops amplitude)) [0..<BAND_COUNT] (?res0, st)))"
      using assms pm by (auto simp add: compose_def Let_def)
    show "loop_flags r = loop_flags (fst (fold (gate_loop_step ops (avg_power ops amplitude)) [0..<BAND_COUNT] (?res0, st)))"
      using assms pm by (auto simp add: compose_def Let_def)
    show "coherence r = global_coherence ops phases"
      using assms pm by (auto simp add: compose_def Let_def gate_loop_fold_coherence)
  qed
qed

lemma compose_state:
  assumes "compose ops st amplitude phases stage_hint = Some (r, st')"
  shows "st' = st \<lparr> initialized := True,
          previous_power := (\<lambda>b. if b < BAND_COUNT then avg_power ops amplitude b else previous_power st b),
          history := (\<lambda>b. if b < BAND_COUNT
                            then (history st b) (unat (history_index st b) := avg_power ops amplitude b)
                            else history st b),
          history_index := (\<lambda>b. if b < BAND_COUNT then (history_index st b + 1) mod 64 else history_index st b),
          history_fill_count :=
            (\<lambda>b. if b < BAND_COUNT then bump_fill (history_fill_count st b) else history_fill_count st b) \<rparr>"
proof -
  from assms obtain res0 where
    "st' = (snd (fold (gate_loop_step ops (avg_power ops amplitude)) [0..<BAND_COUNT] (res0, st)))
             \<lparr> initialized := True \<rparr>"
    by (rule compose_SomeD)
  then show ?thesis by (simp add: gate_loop_fold_state)
qed

lemma compose_gate_bit:
  assumes "compose ops st amplitude phases stage_hint = Some (r, st')"
  shows "bit (gate_flags r) k \<longleftrightarrow>
     k < BAND_COUNT \<and> initialized st
       \<and> fge ops (relative_change ops (avg_power ops amplitude k) (previous_power st k)) (fconst ops 0.35)"
proof -
  from assms obtain res0 where z: "gate_flags res0 = 0"
    and g: "gate_flags r = gate_flags (fst (fold (gate_loop_step ops (avg_power ops amplitude)) [0..<BAND_COUNT] (res0, st)))"
    by (rule compose_SomeD)
  have le: "BAND_COUNT \<le> 8" by (simp add: BAND_COUNT_def)
  show ?thesis
    unfolding g by (simp add: gate_loop_fold_gate_bit [OF le] z)
qed


subsection \<open>Gate detection\<close>

lemma fold_add_real: "fold (\<lambda>i acc. acc + f i) [0..<n] (z :: real) = z + (\<Sum>i<n. f i)"
  by (induction n) simp_all

lemma avg_power_real: "avg_power real_ops amplitude band = (\<Sum>ch<8. amplitude ch band) / 8"
  by (simp add: avg_power_def real_ops_sel CHANNEL_COUNT_def fold_add_real)

lemma avg_power_real_uniform: "avg_power real_ops (uniform_matrix x) band = x"
  by (simp add: avg_power_real uniform_matrix_def)

lemma relative_change_real:
  "relative_change real_ops m ref = \<bar>m - ref\<bar> / max ref (1 / 1000)"
  by (simp add: relative_change_def real_ops_sel std_max_def max_def)

text \<open>
  Claim C6. In a result that \<open>compose\<close> returns, for each of the five bands \<open>b\<close>, bit
  \<open>b\<close> of \<open>gate_flags\<close> is set exactly when the composer was initialised before the call
  and \<open>|mean_amp b - previous_power b| / max(previous_power b, 10\<^sup>-\<^sup>3) \<ge> 0.35\<close>; no other
  bit is ever set, so on the first call (not yet initialised) \<open>gate_flags\<close> is 0; and
  after the call \<open>previous_power b\<close> is the new mean amplitude of band \<open>b\<close>.
\<close>

theorem compose_gate_flags:
  "compose ops st amplitude phases stage_hint = Some (r, st') \<Longrightarrow>
     (\<forall>b<BAND_COUNT. bit (gate_flags r) b \<longleftrightarrow>
          (initialized st
           \<and> fge ops (relative_change ops (avg_power ops amplitude b) (previous_power st b)) (fconst ops 0.35)))
     \<and> (\<forall>b\<ge>BAND_COUNT. \<not> bit (gate_flags r) b)
     \<and> (\<not> initialized st \<longrightarrow> gate_flags r = 0)
     \<and> (\<forall>b<BAND_COUNT. previous_power st' b = avg_power ops amplitude b)"
proof -
  assume c: "compose ops st amplitude phases stage_hint = Some (r, st')"
  have "\<not> initialized st \<Longrightarrow> gate_flags r = 0"
    by (rule bit_word_eqI) (simp add: compose_gate_bit [OF c])
  moreover have "\<forall>b<BAND_COUNT. previous_power st' b = avg_power ops amplitude b"
    by (simp add: compose_state [OF c])
  ultimately show ?thesis
    by (auto simp add: compose_gate_bit [OF c])
qed

theorem compose_gate_flags_witness:
  "\<exists>r1 st1 r2 st2.
      compose real_ops (new_composer real_ops) (uniform_matrix 0) (uniform_matrix 0) 0 = Some (r1, st1)
      \<and> compose real_ops st1 (uniform_matrix 1) (uniform_matrix 0) 0 = Some (r2, st2)
      \<and> gate_flags r1 = 0 \<and> previous_power st1 2 = 0
      \<and> bit (gate_flags r2) 2 \<and> previous_power st2 2 = 1"
proof -
  obtain r1 st1 where c1:
    "compose real_ops (new_composer real_ops) (uniform_matrix 0) (uniform_matrix 0) 0 = Some (r1, st1)"
    using compose_real_total by blast
  obtain r2 st2 where c2:
    "compose real_ops st1 (uniform_matrix 1) (uniform_matrix 0) 0 = Some (r2, st2)"
    using compose_real_total by blast
  have b: "(2::nat) < BAND_COUNT" by (simp add: BAND_COUNT_def)
  have n: "\<not> initialized (new_composer real_ops :: real SigprintComposer)"
    by (simp add: new_composer_def)
  have i1: "initialized st1" using compose_state [OF c1] by simp
  from compose_gate_flags [OF c1] n b
  have g1: "gate_flags r1 = 0" and p1: "previous_power st1 2 = 0"
    by (simp_all add: avg_power_real_uniform)
  from compose_gate_flags [OF c2] b
  have "bit (gate_flags r2) 2 \<longleftrightarrow> initialized st1
       \<and> fge real_ops (relative_change real_ops (avg_power real_ops (uniform_matrix 1) 2) (previous_power st1 2))
            (fconst real_ops 0.35)"
    and p2: "previous_power st2 2 = avg_power real_ops (uniform_matrix 1) 2"
    by blast+
  then have g2: "bit (gate_flags r2) 2"
    using i1 p1 by (simp add: avg_power_real_uniform relative_change_real fge_def real_ops_sel)
  from c1 c2 g1 p1 g2 p2 show ?thesis
    by (simp add: avg_power_real_uniform)
qed

subsection \<open>The state invariant\<close>

lemma unat_next_index: "unat ((h + 1) mod 64 :: 32 word) < 64"
proof -
  have "unat ((h + 1) mod 64 :: 32 word) = unat (h + 1) mod 64"
    by (simp add: unat_mod)
  then show ?thesis by simp
qed

lemma unat_lookback_index: "unat ((h + 64 - 20) mod 64 :: 32 word) < 64"
proof -
  have "unat ((h + 64 - 20) mod 64 :: 32 word) = unat (h + 64 - 20) mod 64"
    by (simp add: unat_mod)
  then show ?thesis by simp
qed

lemma ucast_fill_less: "(ucast c :: 32 word) < 64 \<longleftrightarrow> unat c < 64" for c :: "16 word"
proof -
  have "unat (ucast c :: 32 word) = unat c"
    by (simp add: unsigned_ucast_eq take_bit_nat_eq_self unsigned_less [where 'a = nat, THEN less_trans])
  then show ?thesis by (simp add: word_less_nat_alt)
qed

lemma unat_bump_fill: "unat (bump_fill c) = (if unat c < 64 then unat c + 1 else unat c)"
proof (cases "unat c < 64")
  case True
  then have "unat (c + 1) = unat c + 1"
    by (simp add: unat_word_ariths)
  then show ?thesis using True by (simp add: bump_fill_def ucast_fill_less)
next
  case False
  then show ?thesis by (simp add: bump_fill_def ucast_fill_less)
qed

lemma fill_ok_new: "fill_ok (new_composer ops)"
  by (simp add: fill_ok_def new_composer_def)

lemma compose_fill_ok:
  assumes "compose ops st amplitude phases stage_hint = Some (r, st')" "fill_ok st"
  shows "fill_ok st'"
  using assms(2) unfolding compose_state [OF assms(1)] fill_ok_def
  by (auto simp add: unat_bump_fill HISTORY_WINDOW_def)

lemma compose_seq_fill_ok:
  "compose_seq ops st xs = Some (rs, st') \<Longrightarrow> fill_ok st \<Longrightarrow> fill_ok st'"
proof (induction xs arbitrary: st rs)
  case Nil
  then show ?case by simp
next
  case (Cons x xs)
  from Cons.prems(1) obtain r st1 rs1 where
    c: "compose ops st (fst x) (fst (snd x)) (snd (snd x)) = Some (r, st1)"
    and s: "compose_seq ops st1 xs = Some (rs1, st')"
    by (auto split: option.splits)
  from compose_fill_ok [OF c Cons.prems(2)] have "fill_ok st1" .
  from Cons.IH [OF s this] show ?case .
qed

lemma compose_seq_snoc:
  "compose_seq ops st (xs @ [x]) = Some (rs, st') \<Longrightarrow>
     \<exists>rs1 st1 r. compose_seq ops st xs = Some (rs1, st1)
        \<and> compose ops st1 (fst x) (fst (snd x)) (snd (snd x)) = Some (r, st')
        \<and> rs = rs1 @ [r]"
proof (induction xs arbitrary: st rs)
  case Nil
  then show ?case by (auto split: option.splits)
next
  case (Cons y ys)
  from Cons.prems obtain r0 st0 rs0 where
    c: "compose ops st (fst y) (fst (snd y)) (snd (snd y)) = Some (r0, st0)"
    and s: "compose_seq ops st0 (ys @ [x]) = Some (rs0, st')" and rs: "rs = r0 # rs0"
    by (auto split: option.splits)
  from Cons.IH [OF s] obtain rs1 st1 r where
    "compose_seq ops st0 ys = Some (rs1, st1)"
    "compose ops st1 (fst x) (fst (snd x)) (snd (snd x)) = Some (r, st')" "rs0 = rs1 @ [r]"
    by blast
  then show ?case using c rs by simp
qed

lemma compose_seq_real_total: "\<exists>rs st'. compose_seq real_ops st xs = Some (rs, st')"
proof (induction xs arbitrary: st)
  case Nil
  show ?case by simp
next
  case (Cons x xs)
  obtain r st1 where c: "compose real_ops st (fst x) (fst (snd x)) (snd (snd x)) = Some (r, st1)"
    using compose_real_total by blast
  obtain rs st2 where "compose_seq real_ops st1 xs = Some (rs, st2)"
    using Cons.IH by blast
  then show ?case using c by simp
qed

text \<open>
  Claim C10. After every \<open>compose\<close> call of a run that starts from a newly constructed
  composer, for every band \<open>b\<close>: \<open>history_index b < 64\<close>, \<open>history_fill_count b \<le> 64\<close>,
  \<open>initialized\<close> holds and \<open>previous_power b\<close> is the mean amplitude of band \<open>b\<close> computed
  in that call. The head index that the next call uses is thus in bounds; the look-back
  index is reduced modulo 64 in the call itself (\<open>unat_lookback_index\<close>).
\<close>

theorem compose_state_invariant:
  "compose_seq ops (new_composer ops) (xs @ [(amplitude, phases, stage_hint)]) = Some (rs, st') \<Longrightarrow>
     initialized st'
     \<and> (\<forall>b<BAND_COUNT. unat (history_index st' b) < HISTORY_WINDOW
            \<and> unat (history_fill_count st' b) \<le> HISTORY_WINDOW
            \<and> previous_power st' b = avg_power ops amplitude b)"
proof -
  assume run: "compose_seq ops (new_composer ops) (xs @ [(amplitude, phases, stage_hint)]) = Some (rs, st')"
  from compose_seq_snoc [OF run] obtain rs1 st1 r where
    s: "compose_seq ops (new_composer ops) xs = Some (rs1, st1)"
    and c: "compose ops st1 amplitude phases stage_hint = Some (r, st')"
    by auto
  from compose_seq_fill_ok [OF s fill_ok_new] have "fill_ok st1" .
  from compose_fill_ok [OF c this] have f: "fill_ok st'" .
  show ?thesis
    using f unfolding fill_ok_def
    by (simp add: compose_state [OF c] unat_next_index HISTORY_WINDOW_def)
qed

theorem compose_state_invariant_witness:
  "\<exists>rs st'.
      compose_seq real_ops (new_composer real_ops)
        ([(uniform_matrix 1, uniform_matrix 0, 0)] @ [(uniform_matrix 2, uniform_matrix 0, 0)]) = Some (rs, st')
      \<and> initialized st' \<and> unat (history_index st' 0) < HISTORY_WINDOW
      \<and> unat (history_fill_count st' 0) \<le> HISTORY_WINDOW \<and> previous_power st' 0 = 2"
proof -
  obtain rs st' where run:
    "compose_seq real_ops (new_composer real_ops)
        ([(uniform_matrix 1, uniform_matrix 0, 0)] @ [(uniform_matrix 2, uniform_matrix 0, 0)]) = Some (rs, st')"
    using compose_seq_real_total by blast
  have b: "(0::nat) < BAND_COUNT" by (simp add: BAND_COUNT_def)
  from compose_state_invariant [OF run] b
  have "initialized st' \<and> unat (history_index st' 0) < HISTORY_WINDOW
      \<and> unat (history_fill_count st' 0) \<le> HISTORY_WINDOW
      \<and> previous_power st' 0 = avg_power real_ops (uniform_matrix 2) 0"
    by blast
  then show ?thesis using run by (simp add: avg_power_real_uniform)
qed

subsection \<open>Gate threshold\<close>

lemma compose_seq_three:
  assumes "compose_seq ops st [x1, x2, x3] = Some (rs, st')"
  obtains r1 st1 r2 st2 r3 where
    "compose ops st (fst x1) (fst (snd x1)) (snd (snd x1)) = Some (r1, st1)"
    "compose ops st1 (fst x2) (fst (snd x2)) (snd (snd x2)) = Some (r2, st2)"
    "compose ops st2 (fst x3) (fst (snd x3)) (snd (snd x3)) = Some (r3, st')"
    "rs = [r1, r2, r3]"
  using assms by (auto split: option.splits)

text \<open>
  Claim C7 as stated fails: a step of 10 percent in the mean amplitude of every band,
  between two calls on an initialised composer, sets no gate bit. The threshold of the
  source is \<open>0.35\<close>.
\<close>

theorem gate_five_percent_counterexample:
  "map_option (map gate_flags \<circ> fst)
     (compose_seq real_ops (new_composer real_ops)
        [(uniform_matrix 1, uniform_matrix 0, 0),
         (uniform_matrix 1, uniform_matrix 0, 0),
         (uniform_matrix (11 / 10), uniform_matrix 0, 0)]) = Some [0, 0, 0]
   \<and> avg_power real_ops (uniform_matrix 1) 2 = 1
   \<and> avg_power real_ops (uniform_matrix (11 / 10)) 2 = 11 / 10"
proof -
  obtain rs st' where run:
    "compose_seq real_ops (new_composer real_ops)
        [(uniform_matrix 1, uniform_matrix 0, 0),
         (uniform_matrix 1, uniform_matrix 0, 0),
         (uniform_matrix (11 / 10), uniform_matrix 0, 0)] = Some (rs, st')"
    using compose_seq_real_total by blast
  from run obtain r1 st1 r2 st2 r3 where
    c1: "compose real_ops (new_composer real_ops) (uniform_matrix 1) (uniform_matrix 0) 0 = Some (r1, st1)"
    and c2: "compose real_ops st1 (uniform_matrix 1) (uniform_matrix 0) 0 = Some (r2, st2)"
    and c3: "compose real_ops st2 (uniform_matrix (11 / 10)) (uniform_matrix 0) 0 = Some (r3, st')"
    and rs: "rs = [r1, r2, r3]"
    by (rule compose_seq_three) simp
  have g1: "gate_flags r1 = 0"
    by (rule bit_word_eqI) (simp add: compose_gate_bit [OF c1] new_composer_def)
  have p1: "\<And>k. k < BAND_COUNT \<Longrightarrow> previous_power st1 k = 1"
    by (simp add: compose_state [OF c1] avg_power_real_uniform)
  have g2: "gate_flags r2 = 0"
    by (rule bit_word_eqI)
      (simp add: compose_gate_bit [OF c2] p1 avg_power_real_uniform relative_change_real fge_def real_ops_sel)
  have p2: "\<And>k. k < BAND_COUNT \<Longrightarrow> previous_power st2 k = 1"
    by (simp add: compose_state [OF c2] avg_power_real_uniform)
  have g3: "gate_flags r3 = 0"
    by (rule bit_word_eqI)
      (simp add: compose_gate_bit [OF c3] p2 avg_power_real_uniform relative_change_real fge_def real_ops_sel)
  show ?thesis
    unfolding run by (simp add: rs g1 g2 g3 avg_power_real_uniform)
qed

text \<open>
  Claim C7, amended. For two successive \<open>compose\<close> calls and a band \<open>b\<close>: if the mean
  amplitude of \<open>b\<close> in the second call differs from the one in the first call by at least
  35 percent of \<open>max(first mean, 10\<^sup>-\<^sup>3)\<close>, the gate bit of \<open>b\<close> is set in the second
  result.
\<close>

theorem gate_set_on_large_step:
  "compose ops st a1 p1 s1 = Some (r1, st1) \<Longrightarrow>
   compose ops st1 a2 p2 s2 = Some (r2, st2) \<Longrightarrow>
   b < BAND_COUNT \<Longrightarrow>
   fge ops (relative_change ops (avg_power ops a2 b) (avg_power ops a1 b)) (fconst ops 0.35) \<Longrightarrow>
   bit (gate_flags r2) b"
proof -
  assume c1: "compose ops st a1 p1 s1 = Some (r1, st1)"
    and c2: "compose ops st1 a2 p2 s2 = Some (r2, st2)"
    and b: "b < BAND_COUNT"
    and step: "fge ops (relative_change ops (avg_power ops a2 b) (avg_power ops a1 b)) (fconst ops 0.35)"
  have "initialized st1" and "previous_power st1 b = avg_power ops a1 b"
    using b by (simp_all add: compose_state [OF c1])
  then show ?thesis
    using b step by (simp add: compose_gate_bit [OF c2])
qed

theorem gate_set_on_large_step_witness:
  "\<exists>r1 st1 r2 st2.
      compose real_ops (new_composer real_ops) (uniform_matrix 1) (uniform_matrix 0) 0 = Some (r1, st1)
      \<and> compose real_ops st1 (uniform_matrix 2) (uniform_matrix 0) 0 = Some (r2, st2)
      \<and> (2::nat) < BAND_COUNT
      \<and> fge real_ops (relative_change real_ops (avg_power real_ops (uniform_matrix 2) 2)
            (avg_power real_ops (uniform_matrix 1) 2)) (fconst real_ops 0.35)
      \<and> bit (gate_flags r2) 2"
proof -
  obtain r1 st1 where c1:
    "compose real_ops (new_composer real_ops) (uniform_matrix 1) (uniform_matrix 0) 0 = Some (r1, st1)"
    using compose_real_total by blast
  obtain r2 st2 where c2:
    "compose real_ops st1 (uniform_matrix 2) (uniform_matrix 0) 0 = Some (r2, st2)"
    using compose_real_total by blast
  have b: "(2::nat) < BAND_COUNT" by (simp add: BAND_COUNT_def)
  have step: "fge real_ops (relative_change real_ops (avg_power real_ops (uniform_matrix 2) 2)
            (avg_power real_ops (uniform_matrix 1) 2)) (fconst real_ops 0.35)"
    by (simp add: avg_power_real_uniform relative_change_real fge_def real_ops_sel)
  from gate_set_on_large_step [OF c1 c2 b step] c1 c2 b step show ?thesis
    by blast
qed

subsection \<open>Loop detection on a constant history\<close>











subsection \<open>Lock-in\<close>

lemma fold_band_update:
  "fold (\<lambda>band bs. bs (band := f (bs band))) [0..<n] bs0 = (\<lambda>b. if b < n then f (bs0 b) else bs0 b)"
  by (induction n) (auto simp add: fun_eq_iff less_Suc_eq)

lemma process_bands:
  "bands (process ops s x) b =
     (if b < BAND_COUNT then process_band ops (unat (lockin_index s)) x (bands s b) else bands s b)"
  by (simp add: process_def Let_def fold_band_update)

lemma process_index: "lockin_index (process ops s x) = (lockin_index s + 1) mod 250"
  by (simp add: process_def Let_def WINDOW_def SAMPLE_RATE_HZ_def)

lemma process_band_tables:
  "ref_sin (process_band ops idx x st) = ref_sin st"
  "ref_cos (process_band ops idx x st) = ref_cos st"
  "filter_alpha (process_band ops idx x st) = filter_alpha st"
  by (simp_all add: process_band_def Let_def)

lemma process_tables:
  "ref_sin (bands (process ops s x) b) = ref_sin (bands s b)"
  "ref_cos (bands (process ops s x) b) = ref_cos (bands s b)"
  "filter_alpha (bands (process ops s x) b) = filter_alpha (bands s b)"
  by (simp_all add: process_bands process_band_tables)

lemma lockin_run_snoc: "lockin_run ops (xs @ [x]) = process ops (lockin_run ops xs) x"
  by (simp add: lockin_run_def)

lemma lockin_run_tables:
  "ref_sin (bands (lockin_run ops xs) b) = ref_sin (reset_band ops b)"
  "ref_cos (bands (lockin_run ops xs) b) = ref_cos (reset_band ops b)"
  "filter_alpha (bands (lockin_run ops xs) b) = filter_alpha (reset_band ops b)"
proof (induction xs rule: rev_induct)
  case Nil
  show "ref_sin (bands (lockin_run ops []) b) = ref_sin (reset_band ops b)"
    "ref_cos (bands (lockin_run ops []) b) = ref_cos (reset_band ops b)"
    "filter_alpha (bands (lockin_run ops []) b) = filter_alpha (reset_band ops b)"
    by (simp_all add: lockin_run_def reset_def)
next
  case (snoc x xs)
  show "ref_sin (bands (lockin_run ops (xs @ [x])) b) = ref_sin (reset_band ops b)"
    "ref_cos (bands (lockin_run ops (xs @ [x])) b) = ref_cos (reset_band ops b)"
    "filter_alpha (bands (lockin_run ops (xs @ [x])) b) = filter_alpha (reset_band ops b)"
    by (simp_all add: lockin_run_snoc process_tables snoc)
qed

lemma unat_cursor_step: "unat i < 250 \<Longrightarrow> unat ((i + 1) mod 250 :: 32 word) = (unat i + 1) mod 250"
proof -
  assume "unat i < 250"
  then have "unat (i + 1) = unat i + 1" by (simp add: unat_word_ariths)
  then show ?thesis by (simp add: unat_mod)
qed

lemma lockin_run_index: "unat (lockin_index (lockin_run ops xs)) = length xs mod 250"
proof (induction xs rule: rev_induct)
  case Nil
  show ?case by (simp add: lockin_run_def reset_def)
next
  case (snoc x xs)
  have "unat (lockin_index (lockin_run ops xs)) < 250" by (simp add: snoc)
  from unat_cursor_step [OF this] show ?case
    by (simp add: lockin_run_snoc process_index snoc mod_Suc_eq)
qed

lemma clampValue_bounds:
  assumes "\<forall>a b. lt a b \<longrightarrow> le a b" "le lo lo" "le hi hi" "le lo hi"
  shows "le lo (clampValue lt v lo hi) \<and> le (clampValue lt v lo hi) hi"
  using assms by (auto simp add: clampValue_def std_max_def std_min_def)

text \<open>
  Claim C9. Let \<open>s\<close> be a lock-in after \<open>reset\<close> and any samples, and \<open>b\<close> one of the
  five bands. \<open>process\<close> replaces \<open>I\<close> by \<open>\<alpha>\<cdot>I + (1 - \<alpha>)\<cdot>(sample\<cdot>ref_cos[idx])\<close>, \<open>Q\<close> by
  \<open>\<alpha>\<cdot>Q + (1 - \<alpha>)\<cdot>(sample\<cdot>ref_sin[idx])\<close>, sets the amplitude to \<open>2\<cdot>sqrt(I\<^sup>2 + Q\<^sup>2)\<close>
  and the phase to \<open>atan2(Q, I)\<close> of the new values, and advances the cursor modulo 250.
  The coefficient \<open>\<alpha>\<close> is \<open>clampValue(exp(-2\<cdot>PI_F\<cdot>max(0.1, bandwidth) / 250), 0, 0.9995)\<close>
  and \<open>process\<close> does not change it; it lies between 0 and 0.9995 in every float
  order in which \<open><\<close> implies \<open>\<le>\<close>, \<open>0 \<le> 0\<close>, \<open>0.9995 \<le> 0.9995\<close> and \<open>0 \<le> 0.9995\<close>.
\<close>

theorem process_update:
  assumes "b < BAND_COUNT"
    and "\<forall>x y. flt ops x y \<longrightarrow> fle ops x y"
    and "fle ops (fconst ops 0) (fconst ops 0)"
    and "fle ops (fconst ops 0.9995) (fconst ops 0.9995)"
    and "fle ops (fconst ops 0) (fconst ops 0.9995)"
  shows
    "let s = lockin_run ops xs;
         s' = process ops s sample_uv;
         idx = unat (lockin_index s);
         alpha = filter_alpha (bands s b);
         i_new = fadd ops (fmul ops alpha (state_i (bands s b)))
                   (fmul ops (fsub ops (fconst ops 1) alpha) (fmul ops sample_uv (ref_cos (bands s b) idx)));
         q_new = fadd ops (fmul ops alpha (state_q (bands s b)))
                   (fmul ops (fsub ops (fconst ops 1) alpha) (fmul ops sample_uv (ref_sin (bands s b) idx)))
     in state_i (bands s' b) = i_new
        \<and> state_q (bands s' b) = q_new
        \<and> state_amplitude (bands s' b)
            = fmul ops (fconst ops 2) (fsqrt ops (fadd ops (fmul ops i_new i_new) (fmul ops q_new q_new)))
        \<and> state_phase (bands s' b) = fatan2 ops q_new i_new
        \<and> idx < SAMPLE_RATE_HZ
        \<and> unat (lockin_index s') = (idx + 1) mod SAMPLE_RATE_HZ
        \<and> filter_alpha (bands s' b) = alpha
        \<and> alpha = clampValue (flt ops)
                    (fexp ops (fdiv ops
                       (fmul ops (fmul ops (fconst ops (- 2)) (fconst ops PI_F))
                          (std_max (flt ops) (fconst ops 0.1) (fconst ops (bandwidth_hz (kBands ! b)))))
                       (fof_nat ops SAMPLE_RATE_HZ)))
                    (fconst ops 0) (fconst ops 0.9995)
        \<and> fle ops (fconst ops 0) alpha
        \<and> fle ops alpha (fconst ops 0.9995)"
proof -
  let ?s = "lockin_run ops xs"
  let ?v = "fexp ops (fdiv ops
                       (fmul ops (fmul ops (fconst ops (- 2)) (fconst ops PI_F))
                          (std_max (flt ops) (fconst ops 0.1) (fconst ops (bandwidth_hz (kBands ! b)))))
                       (fof_nat ops SAMPLE_RATE_HZ))"
  have alpha: "filter_alpha (bands ?s b) = clampValue (flt ops) ?v (fconst ops 0) (fconst ops 0.9995)"
    by (simp add: lockin_run_tables reset_band_def Let_def)
  have bounds: "fle ops (fconst ops 0) (clampValue (flt ops) ?v (fconst ops 0) (fconst ops 0.9995))
      \<and> fle ops (clampValue (flt ops) ?v (fconst ops 0) (fconst ops 0.9995)) (fconst ops 0.9995)"
    by (rule clampValue_bounds) (use assms in auto)
  have idx: "unat (lockin_index ?s) < 250" by (simp add: lockin_run_index)
  have step: "unat (lockin_index (process ops ?s sample_uv)) = (unat (lockin_index ?s) + 1) mod 250"
    by (simp add: process_index unat_cursor_step [OF idx])
  have band: "bands (process ops ?s sample_uv) b
                = process_band ops (unat (lockin_index ?s)) sample_uv (bands ?s b)"
    using assms(1) by (simp add: process_bands)
  show ?thesis
    unfolding Let_def band
    using idx step bounds
    by (simp add: process_band_def Let_def SAMPLE_RATE_HZ_def alpha)
qed

theorem process_update_witness:
  "let s = lockin_run real_ops [];
       s' = process real_ops s 1;
       alpha = filter_alpha (bands s 2)
   in state_i (bands s' 2) = 1 - alpha \<and> state_q (bands s' 2) = 0
      \<and> unat (lockin_index s') = 1 \<and> 0 \<le> alpha \<and> alpha \<le> 0.9995"
proof -
  have b: "(2::nat) < BAND_COUNT" by (simp add: BAND_COUNT_def)
  have o: "\<forall>x y. flt real_ops x y \<longrightarrow> fle real_ops x y"
    "fle real_ops (fconst real_ops 0) (fconst real_ops 0)"
    "fle real_ops (fconst real_ops 0.9995) (fconst real_ops 0.9995)"
    "fle real_ops (fconst real_ops 0) (fconst real_ops 0.9995)"
    by (simp_all add: real_ops_sel)
  have s0: "state_i (bands (lockin_run real_ops []) 2) = 0" "state_q (bands (lockin_run real_ops []) 2) = 0"
    "unat (lockin_index (lockin_run real_ops [] :: real MultiBandLockIn)) = 0"
    by (simp_all add: lockin_run_def reset_def reset_band_def Let_def real_ops_sel)
  have t0: "ref_cos (bands (lockin_run real_ops []) 2) 0 = 1" "ref_sin (bands (lockin_run real_ops []) 2) 0 = 0"
    by (simp_all add: lockin_run_def reset_def reset_band_def Let_def real_ops_sel)
  from process_update [OF b o, of "[]" 1] show ?thesis
    by (simp add: Let_def s0 t0 real_ops_sel SAMPLE_RATE_HZ_def)
qed

subsection \<open>Digit ranges\<close>





lemma stage_digit_le: "unat (w mod 10 :: 8 word) \<le> 9"
proof -
  have "unat (w mod 10) = unat w mod 10" by (simp add: unat_mod)
  moreover have "unat w mod 10 < 10" by simp
  ultimately show ?thesis by linarith
qed













subsection \<open>Entropy of the digit histogram\<close>






subsection \<open>Ranges of the result\<close>



subsection \<open>Silence\<close>




















subsection \<open>Decoding a frame\<close>

lemma concat_blocks_length:
  "(\<forall>i<n. length (f i) = m) \<Longrightarrow> length (concat (map f [0..<n])) = n * m"
  by (induction n) simp_all

lemma concat_blocks_nth:
  "(\<forall>i<n. length (f i) = m) \<Longrightarrow> i < n \<Longrightarrow> j < m \<Longrightarrow>
   concat (map f [0..<n]) ! (i * m + j) = f i ! j"
proof (induction n)
  case 0
  then show ?case by simp
next
  case (Suc n)
  then have len: "length (concat (map f [0..<n])) = n * m"
    by (intro concat_blocks_length) simp
  show ?case
  proof (cases "i < n")
    case True
    then have "i * m + j < n * m"
    proof -
      have "i * m + j < i * m + m" using Suc.prems(3) by simp
      also have "\<dots> = Suc i * m" by simp
      also have "\<dots> \<le> n * m" using True by (intro mult_le_mono1) simp
      finally show ?thesis .
    qed
    then show ?thesis using Suc True by (simp add: nth_append len)
  next
    case False
    then have "i = n" using Suc.prems(2) by simp
    then show ?thesis by (simp add: nth_append len)
  qed
qed

lemma sample_range_bits:
  fixes w :: "32 word"
  assumes "- 8388608 \<le> sint w" "sint w \<le> 8388607" "23 \<le> n" "n < 32"
  shows "bit w n = bit w 23"
proof -
  have "signed_take_bit 23 (sint w) = sint w"
    using assms by (simp add: signed_take_bit_int_eq_self_iff)
  then have "bit (sint w) n = bit (signed_take_bit 23 (sint w)) n" by simp
  also have "\<dots> = bit (sint w) 23"
    using assms by (simp add: bit_signed_take_bit_iff min_def)
  finally show ?thesis using assms by (simp add: bit_sint_iff)
qed

lemma read_u32le_bytes:
  assumes "\<forall>j<4. bs ! (off + j) = writeUint32LE v ! j"
  shows "read_u32le bs off = v"
proof (rule bit_word_eqI)
  fix n assume "n < LENGTH(32)"
  then have n: "n < 32" by simp
  then have d: "n div 8 < 4" by simp
  have "8 * (n div 8) + n mod 8 = n" by simp
  then show "bit (read_u32le bs off) n = bit v n"
    using n d assms by (simp add: bit_read_u32le bit_writeUint32LE)
qed

lemma matrix_bytes_nth:
  assumes "ch < 8" "b < 5" "j < 4"
  shows "matrix_bytes bits m ! (4 * (ch * 5 + b) + j) = writeUint32LE (bits (m ch b)) ! j"
proof -
  let ?row = "\<lambda>ch. concat (map (\<lambda>band. memcpy_float bits (m ch band)) [0..<5])"
  have inner: "\<forall>band<5. length (memcpy_float bits (m c band)) = 4" for c
    by (simp add: memcpy_float_def length_writeUint32LE)
  have row_len: "\<forall>c<8. length (?row c) = 20"
    using concat_blocks_length [OF inner] by simp
  have "b * 4 + j < 20" using assms by simp
  from concat_blocks_nth [OF row_len assms(1) this]
  have "concat (map ?row [0..<8]) ! (ch * 20 + (b * 4 + j)) = ?row ch ! (b * 4 + j)" .
  also have "\<dots> = memcpy_float bits (m ch b) ! j"
    by (rule concat_blocks_nth [OF inner assms(2,3)])
  finally show ?thesis
    by (simp add: matrix_bytes_def CHANNEL_COUNT_def BAND_COUNT_def memcpy_float_def algebra_simps)
qed

lemma samples_nth:
  assumes "ch < 8" "j < 3"
  shows "concat (map (\<lambda>ch. sample_bytes (raw ch)) [0..<CHANNEL_COUNT]) ! (3 * ch + j) = sample_bytes (raw ch) ! j"
proof -
  have "\<forall>c<8. length (sample_bytes (raw c)) = 3" by (simp add: sample_bytes_def)
  from concat_blocks_nth [OF this assms] show ?thesis
    by (simp add: CHANNEL_COUNT_def mult.commute)
qed

lemma nth_first: "k < length xs \<Longrightarrow> (xs @ ys) ! k = xs ! k"
  by (simp add: nth_append)

lemma nth_second: "length xs = n \<Longrightarrow> k < length ys \<Longrightarrow> (xs @ ys @ zs) ! (n + k) = ys ! k"
  by (simp add: nth_append)

lemma nth_third:
  "length ws = n \<Longrightarrow> length xs = m \<Longrightarrow> k < length ys \<Longrightarrow> (ws @ xs @ ys @ zs) ! (n + m + k) = ys ! k"
  by (simp add: nth_append)

lemma nth_fourth:
  "length vs = l \<Longrightarrow> length ws = n \<Longrightarrow> length xs = m \<Longrightarrow> k < length ys \<Longrightarrow>
   (vs @ ws @ xs @ ys @ zs) ! (l + n + m + k) = ys ! k"
  by (simp add: nth_append)

lemma payload_nth_sample:
  assumes "ch < 8" "j < 3"
  shows "encode_payload bits raw a p s st z ! (3 * ch + j) = sample_bytes (raw ch) ! j"
proof -
  have "3 * ch + j < length (concat (map (\<lambda>ch. sample_bytes (raw ch)) [0..<CHANNEL_COUNT]))"
    using assms by (simp add: length_samples)
  then show ?thesis
    unfolding encode_payload_def by (simp only: nth_first samples_nth [OF assms])
qed

lemma payload_nth_amplitude:
  assumes "ch < 8" "b < 5" "j < 4"
  shows "encode_payload bits raw a p s st z ! (24 + (4 * (ch * 5 + b) + j)) = writeUint32LE (bits (a ch b)) ! j"
proof -
  have "4 * (ch * 5 + b) + j < length (matrix_bytes bits a)"
    using assms by (simp add: length_matrix_bytes)
  from nth_second [OF length_samples this] show ?thesis
    unfolding encode_payload_def by (simp only: matrix_bytes_nth [OF assms])
qed

lemma payload_nth_phase:
  assumes "ch < 8" "b < 5" "j < 4"
  shows "encode_payload bits raw a p s st z ! (24 + 160 + (4 * (ch * 5 + b) + j)) = writeUint32LE (bits (p ch b)) ! j"
proof -
  have "4 * (ch * 5 + b) + j < length (matrix_bytes bits p)"
    using assms by (simp add: length_matrix_bytes)
  from nth_third [OF length_samples length_matrix_bytes this] show ?thesis
    unfolding encode_payload_def by (simp only: matrix_bytes_nth [OF assms])
qed

lemma payload_nth_digit:
  assumes "k < 10"
  shows "encode_payload bits raw a p s st z ! (24 + 160 + 160 + k) = bcd_byte (digits s) k"
proof -
  have "k < length (map (bcd_byte (digits s)) [0..<20 div 2])" using assms by simp
  from nth_fourth [OF length_samples length_matrix_bytes length_matrix_bytes this] show ?thesis
    unfolding encode_payload_def using assms by simp
qed

lemma packet_nth_payload:
  "encodePacket bits raw a p s st z ts ! (12 + k) = encode_payload bits raw a p s st z ! k"
proof -
  let ?h = "writeUint16LE 0x5347 @ [0x01, 0x01] @ writeUint32LE ts @ writeUint16LE 371
       @ writeUint16LE (crc16_ccitt (encode_payload bits raw a p s st z))"
  have "length ?h = 12" by (simp add: length_writeUint16LE length_writeUint32LE)
  then have "(?h @ encode_payload bits raw a p s st z) ! (12 + k) = encode_payload bits raw a p s st z ! k"
    by (metis nth_append_length_plus)
  then show ?thesis by (simp only: encodePacket_split)
qed

lemma bit_read_24:
  "bit (ucast b0 OR push_bit 8 (ucast b1) OR push_bit 16 (ucast b2) :: 32 word) n
     \<longleftrightarrow> n < 24 \<and> bit ([b0, b1, b2] ! (n div 8)) (n mod 8)"
  for b0 b1 b2 :: "8 word"
proof -
  consider "n < 8" | "8 \<le> n \<and> n < 16" | "16 \<le> n \<and> n < 24" | "24 \<le> n" by linarith
  then show ?thesis
  proof cases
    case 1 then show ?thesis
      using div_mod_8_cases [of 0 n]
      by (auto simp add: bit_or_iff bit_shifted_byte bit_ucast_byte)
  next
    case 2 then show ?thesis
      using div_mod_8_cases [of 1 n]
      by (auto simp add: bit_or_iff bit_shifted_byte bit_ucast_byte)
  next
    case 3 then show ?thesis
      using div_mod_8_cases [of 2 n]
      by (auto simp add: bit_or_iff bit_shifted_byte bit_ucast_byte)
  next
    case 4 then show ?thesis
      by (auto simp add: bit_or_iff bit_shifted_byte bit_ucast_byte)
  qed
qed

lemma sign_bit_test: "v AND 0x00800000 \<noteq> 0 \<longleftrightarrow> bit v 23" for v :: "32 word"
proof -
  have "(0x00800000 :: 32 word) = 2 ^ 23" by simp
  then show ?thesis by (simp only: and_exp_eq_0_iff_not_bit) simp
qed

lemma bit_sign_fill: "bit (0xFF000000 :: 32 word) n \<longleftrightarrow> 24 \<le> n \<and> n < 32"
proof -
  have e: "(0xFF000000 :: 32 word) = push_bit 24 (mask 8)" by (simp add: mask_eq_exp_minus_1)
  show ?thesis unfolding e by (auto simp add: bit_simps)
qed

lemma sign_extend_24:
  fixes w :: "32 word"
  assumes range: "- 8388608 \<le> sint w" "sint w \<le> 8388607"
    and bytes: "b0 = sample_bytes w ! 0" "b1 = sample_bytes w ! 1" "b2 = sample_bytes w ! 2"
  shows "(let v = ucast b0 OR push_bit 8 (ucast b1) OR push_bit 16 (ucast b2)
          in if v AND 0x00800000 \<noteq> 0 then v OR 0xFF000000 else v) = w"
proof -
  define v :: "32 word" where "v = ucast b0 OR push_bit 8 (ucast b1) OR push_bit 16 (ucast b2)"
  have v: "bit v n \<longleftrightarrow> n < 24 \<and> bit w n" for n
  proof (cases "n < 24")
    case True
    then have d: "n div 8 < 3" by simp
    have "8 * (n div 8) + n mod 8 = n" by simp
    moreover have "[b0, b1, b2] ! (n div 8) = sample_bytes w ! (n div 8)"
      using d bytes by (cases "n div 8 = 0"; cases "n div 8 = 1"; cases "n div 8 = 2") simp_all
    ultimately show ?thesis using True d unfolding v_def by (simp add: bit_read_24 bit_sample_bytes)
  next
    case False
    then show ?thesis unfolding v_def by (simp add: bit_read_24)
  qed
  have hi: "bit w n = bit w 23" if "23 \<le> n" "n < 32" for n
    using range that by (rule sample_range_bits)
  have "(if v AND 0x00800000 \<noteq> 0 then v OR 0xFF000000 else v) = w"
  proof (cases "bit w 23")
    case True
    then have t: "v AND 0x00800000 \<noteq> 0" by (simp add: sign_bit_test v)
    have "v OR 0xFF000000 = w"
    proof (rule bit_word_eqI)
      fix n assume "n < LENGTH(32)"
      then have n: "n < 32" by simp
      show "bit (v OR 0xFF000000) n = bit w n"
        using n True hi [of n] bit_sign_fill [of n]
        by (cases "n < 24") (simp_all add: bit_or_iff v)
    qed
    then show ?thesis using t by simp
  next
    case False
    then have t: "\<not> v AND 0x00800000 \<noteq> 0" by (simp add: sign_bit_test v)
    have "v = w"
    proof (rule bit_word_eqI)
      fix n assume "n < LENGTH(32)"
      then have n: "n < 32" by simp
      show "bit v n = bit w n"
        using n False hi [of n] by (cases "n < 24") (simp_all add: v)
    qed
    then show ?thesis using t by simp
  qed
  then show ?thesis unfolding v_def Let_def .
qed

lemma nibble_bits: "unat x \<le> 9 \<Longrightarrow> bit x n \<Longrightarrow> n < 4" for x :: "8 word"
proof -
  assume x: "unat x \<le> 9" and b: "bit x n"
  have "x < 2 ^ 4" using x by (simp add: word_less_nat_alt)
  then have "x AND mask 4 = x" by (rule less_mask_eq)
  then have "bit (x AND mask 4) n" using b by simp
  then show ?thesis by (simp add: bit_simps)
qed

lemma digit_mod_10: "unat x \<le> 9 \<Longrightarrow> x mod 10 = x" for x :: "8 word"
proof -
  assume "unat x \<le> 9"
  then have "unat (x mod 10) = unat x" by (simp add: unat_mod)
  then show ?thesis by (simp only: word_unat_eq_iff)
qed

lemma bcd_nibbles:
  fixes x y :: "8 word"
  assumes "unat x \<le> 9" "unat y \<le> 9"
  shows "drop_bit 4 (push_bit 4 x OR y) AND 0x0F = x" "(push_bit 4 x OR y) AND 0x0F = y"
proof -
  have m: "(0x0F :: 8 word) = mask 4" by (simp add: mask_eq_exp_minus_1)
  show "drop_bit 4 (push_bit 4 x OR y) AND 0x0F = x"
    unfolding m
    by (rule bit_word_eqI)
      (use nibble_bits [OF assms(1)] nibble_bits [OF assms(2)] in \<open>auto simp add: bit_simps\<close>)
  show "(push_bit 4 x OR y) AND 0x0F = y"
    unfolding m
    by (rule bit_word_eqI)
      (use nibble_bits [OF assms(1)] nibble_bits [OF assms(2)] in \<open>auto simp add: bit_simps\<close>)
qed

lemma decode_sample_encode:
  assumes "ch < 8" "- 8388608 \<le> sint (raw ch)" "sint (raw ch) \<le> 8388607"
  shows "decode_sample (encodePacket bits raw a p s st z ts) ch = raw ch"
proof -
  let ?pkt = "encodePacket bits raw a p s st z ts"
  have b0: "?pkt ! (12 + 3 * ch) = sample_bytes (raw ch) ! 0"
    using packet_nth_payload [of bits raw a p s st z ts "3 * ch"] payload_nth_sample [OF assms(1), of 0 bits raw a p s st z]
    by simp
  have b1: "?pkt ! (12 + 3 * ch + 1) = sample_bytes (raw ch) ! 1"
    using packet_nth_payload [of bits raw a p s st z ts "3 * ch + 1"] payload_nth_sample [OF assms(1), of 1 bits raw a p s st z]
    by (simp add: add.assoc)
  have b2: "?pkt ! (12 + 3 * ch + 2) = sample_bytes (raw ch) ! 2"
    using packet_nth_payload [of bits raw a p s st z ts "3 * ch + 2"] payload_nth_sample [OF assms(1), of 2 bits raw a p s st z]
    by (simp add: add.assoc)
  from sign_extend_24 [OF assms(2,3) b0 b1 b2] show ?thesis
    unfolding decode_sample_def HEADER_SIZE_def Let_def .
qed

lemma decode_amplitude_encode:
  assumes "ch < 8" "b < 5"
  shows "decode_amplitude (encodePacket bits raw a p s st z ts) ch b = bits (a ch b)"
proof -
  have "\<forall>j<4. encodePacket bits raw a p s st z ts ! (12 + 24 + 4 * (ch * 5 + b) + j)
          = writeUint32LE (bits (a ch b)) ! j"
  proof (intro allI impI)
    fix j :: nat assume j: "j < 4"
    have "12 + 24 + 4 * (ch * 5 + b) + j = 12 + (24 + (4 * (ch * 5 + b) + j))" by simp
    then show "encodePacket bits raw a p s st z ts ! (12 + 24 + 4 * (ch * 5 + b) + j)
          = writeUint32LE (bits (a ch b)) ! j"
      by (simp only: packet_nth_payload payload_nth_amplitude [OF assms j])
  qed
  then show ?thesis
    unfolding decode_amplitude_def HEADER_SIZE_def BAND_COUNT_def by (rule read_u32le_bytes)
qed

lemma decode_phase_encode:
  assumes "ch < 8" "b < 5"
  shows "decode_phase (encodePacket bits raw a p s st z ts) ch b = bits (p ch b)"
proof -
  have "\<forall>j<4. encodePacket bits raw a p s st z ts ! (12 + 184 + 4 * (ch * 5 + b) + j)
          = writeUint32LE (bits (p ch b)) ! j"
  proof (intro allI impI)
    fix j :: nat assume j: "j < 4"
    have "12 + 184 + 4 * (ch * 5 + b) + j = 12 + (24 + 160 + (4 * (ch * 5 + b) + j))" by simp
    then show "encodePacket bits raw a p s st z ts ! (12 + 184 + 4 * (ch * 5 + b) + j)
          = writeUint32LE (bits (p ch b)) ! j"
      by (simp only: packet_nth_payload payload_nth_phase [OF assms j])
  qed
  then show ?thesis
    unfolding decode_phase_def HEADER_SIZE_def BAND_COUNT_def by (rule read_u32le_bytes)
qed

lemma decode_digit_encode:
  assumes "i < 20"
  shows "decode_digit (encodePacket bits raw a p s st z ts) i = digits s i mod 10"
proof -
  have k: "i div 2 < 10" using assms by simp
  have "12 + 344 + i div 2 = 12 + (24 + 160 + 160 + i div 2)" by simp
  then have byte: "encodePacket bits raw a p s st z ts ! (12 + 344 + i div 2) = bcd_byte (digits s) (i div 2)"
    by (simp only: packet_nth_payload payload_nth_digit [OF k])
  have hi: "unat (digits s (i div 2 * 2) mod 10) \<le> 9" and lo: "unat (digits s (i div 2 * 2 + 1) mod 10) \<le> 9"
    by (rule stage_digit_le)+
  let ?B = "push_bit 4 (digits s (i div 2 * 2) mod 10) OR digits s (i div 2 * 2 + 1) mod 10"
  have d: "decode_digit (encodePacket bits raw a p s st z ts) i
             = (if even i then drop_bit 4 ?B AND 0x0F else ?B AND 0x0F)"
    unfolding decode_digit_def HEADER_SIZE_def Let_def byte bcd_byte_def ..
  show ?thesis
  proof (cases "even i")
    case True
    then have e: "i div 2 * 2 = i" by simp
    have "decode_digit (encodePacket bits raw a p s st z ts) i = digits s (i div 2 * 2) mod 10"
      using d True bcd_nibbles(1) [OF hi lo] by (simp only: if_True)
    then show ?thesis by (simp only: e)
  next
    case False
    then have e: "i div 2 * 2 + 1 = i" by (simp add: odd_two_times_div_two_succ mult.commute)
    have "decode_digit (encodePacket bits raw a p s st z ts) i = digits s (i div 2 * 2 + 1) mod 10"
      using d False bcd_nibbles(2) [OF hi lo] by (simp only: if_False)
    then show ?thesis by (simp only: e)
  qed
qed

text \<open>
  Claim C5. Take any frame that \<open>encodePacket\<close> produces from raw samples in the signed
  24-bit range. Decoding by the layout of section 4.3 gives back each of the eight raw
  samples (three bytes, sign-extended from bit 23), the bit pattern of each entry of
  the amplitude and the phase matrix, and each of the twenty digits modulo ten, which
  is the digit itself when it is a decimal digit (at most 9). The sample
  \<open>-8388608\<close> is written as the bytes \<open>0x00\<close>, \<open>0x00\<close>, \<open>0x80\<close>.
\<close>

theorem packet_round_trip:
  assumes "\<forall>ch<CHANNEL_COUNT. - 8388608 \<le> sint (raw_samples ch) \<and> sint (raw_samples ch) \<le> 8388607"
  shows
    "(\<forall>ch<CHANNEL_COUNT.
        decode_sample (encodePacket bits raw_samples amplitude phases sigprint stage zipper_freq_hz timestamp_ms) ch
          = raw_samples ch)
     \<and> (\<forall>ch<CHANNEL_COUNT. \<forall>band<BAND_COUNT.
          decode_amplitude (encodePacket bits raw_samples amplitude phases sigprint stage zipper_freq_hz timestamp_ms) ch band
            = bits (amplitude ch band)
          \<and> decode_phase (encodePacket bits raw_samples amplitude phases sigprint stage zipper_freq_hz timestamp_ms) ch band
            = bits (phases ch band))
     \<and> (\<forall>i<20.
          decode_digit (encodePacket bits raw_samples amplitude phases sigprint stage zipper_freq_hz timestamp_ms) i
            = digits sigprint i mod 10
          \<and> (unat (digits sigprint i) \<le> 9 \<longrightarrow>
               decode_digit (encodePacket bits raw_samples amplitude phases sigprint stage zipper_freq_hz timestamp_ms) i
                 = digits sigprint i))
     \<and> sample_bytes (- 8388608) = [0x00, 0x00, 0x80]"
proof -
  have "sample_bytes (- 8388608) = [0x00, 0x00, 0x80]"
    by (simp add: sample_bytes_def)
  then show ?thesis
    using assms
    by (simp add: CHANNEL_COUNT_def BAND_COUNT_def decode_sample_encode decode_amplitude_encode
        decode_phase_encode decode_digit_encode digit_mod_10)
qed

theorem packet_round_trip_witness:
  "decode_sample
     (encodePacket (\<lambda>x. x) (\<lambda>ch. - 8388608) (uniform_matrix 0x3F800000) (uniform_matrix 0x40490FDB)
        \<lparr>digits = (\<lambda>i. 7), coherence = 0, gate_flags = 0, loop_flags = 0, entropy = 0\<rparr> 1 222 1000) 3
     = - 8388608
   \<and> decode_amplitude
     (encodePacket (\<lambda>x. x) (\<lambda>ch. - 8388608) (uniform_matrix 0x3F800000) (uniform_matrix 0x40490FDB)
        \<lparr>digits = (\<lambda>i. 7), coherence = 0, gate_flags = 0, loop_flags = 0, entropy = 0\<rparr> 1 222 1000) 3 2
     = 0x3F800000
   \<and> decode_phase
     (encodePacket (\<lambda>x. x) (\<lambda>ch. - 8388608) (uniform_matrix 0x3F800000) (uniform_matrix 0x40490FDB)
        \<lparr>digits = (\<lambda>i. 7), coherence = 0, gate_flags = 0, loop_flags = 0, entropy = 0\<rparr> 1 222 1000) 3 2
     = 0x40490FDB
   \<and> decode_digit
     (encodePacket (\<lambda>x. x) (\<lambda>ch. - 8388608) (uniform_matrix 0x3F800000) (uniform_matrix 0x40490FDB)
        \<lparr>digits = (\<lambda>i. 7), coherence = 0, gate_flags = 0, loop_flags = 0, entropy = 0\<rparr> 1 222 1000) 19
     = 7"
proof -
  have r: "\<forall>ch<CHANNEL_COUNT. - 8388608 \<le> sint ((\<lambda>ch. - 8388608 :: 32 word) ch)
             \<and> sint ((\<lambda>ch. - 8388608 :: 32 word) ch) \<le> 8388607"
    by simp
  have c: "(3::nat) < CHANNEL_COUNT" "(2::nat) < BAND_COUNT" "(19::nat) < 20"
    by (simp_all add: CHANNEL_COUNT_def BAND_COUNT_def)
  from packet_round_trip [OF r, of "\<lambda>x. x" "uniform_matrix 0x3F800000" "uniform_matrix 0x40490FDB"
      "\<lparr>digits = (\<lambda>i. 7), coherence = 0, gate_flags = 0, loop_flags = 0, entropy = 0\<rparr>" 1 222 1000] c
  show ?thesis
    by (simp add: uniform_matrix_def)
qed

end
